theory Spec2Isabelle
  imports Main "HOL-Library.Sublist"
begin

section \<open>Pattern matcher\<close>

text \<open>
  Identifiers and patterns are JavaScript strings; a character of the model stands for one
  code unit. The backslash cannot be written inside a string literal, so it gets a name.
\<close>

definition bslash :: char where
  "bslash = CHR 0x5C"

text \<open>
  \<^verbatim>\<open>s.replace(/c/g, r)\<close> for a single character \<open>c\<close> and a replacement text \<open>r\<close> without
  dollar patterns: every occurrence of \<open>c\<close> is replaced, left to right.
\<close>

definition replaceAll :: "char \<Rightarrow> string \<Rightarrow> string \<Rightarrow> string" where
  "replaceAll c r s = concat (map (\<lambda>x. if x = c then r else [x]) s)"

text \<open>
  The source text of the regular expression that \<^verbatim>\<open>subscribeState\<close> builds
  (Connection.ts, lines 525 to 535): six replacements in the order of the source, then the
  end anchor when the result holds no star.
\<close>

definition compile_state_pattern :: "string \<Rightarrow> string" where
  "compile_state_pattern pat =
     (let reg = replaceAll (CHR ''['') [bslash, CHR ''['']
                 (replaceAll (CHR ''+'') [bslash, CHR ''+'']
                   (replaceAll (CHR '')'') [bslash, CHR '')'']
                     (replaceAll (CHR ''('') [bslash, CHR ''('']
                       (replaceAll (CHR ''*'') ''.*''
                         (replaceAll (CHR ''.'') [bslash, CHR ''.''] pat)))))
      in if CHR ''*'' \<notin> set reg then reg @ ''$'' else reg)"

text \<open>
  The same for \<^verbatim>\<open>subscribeObject\<close> (lines 609 to 612): only the dot and the star are
  rewritten.
\<close>

definition compile_object_pattern :: "string \<Rightarrow> string" where
  "compile_object_pattern pat =
     (let reg = replaceAll (CHR ''*'') ''.*'' (replaceAll (CHR ''.'') [bslash, CHR ''.''] pat)
      in if CHR ''*'' \<notin> set reg then reg @ ''$'' else reg)"

subsection \<open>The regular expressions the registries build\<close>

text \<open>
  \<^verbatim>\<open>new RegExp(reg)\<close> and \<^verbatim>\<open>reg.test(id)\<close> belong to the language, not to the
  repository. They are modelled for the fragment the two compilers can produce from
  ordinary patterns: literal characters, escaped syntax characters, the dot, the
  quantifiers \<open>*\<close> and \<open>+\<close> on one character, and the end assertion. The parser answers
  \<open>None\<close> for every other text: either the engine rejects it with a syntax error or it
  lies outside this fragment (groups, classes, alternation, \<open>?\<close>, braces, \<open>^\<close>, class
  escapes).
\<close>

datatype atom = Lit char | AnyChar

datatype item = One atom | Many atom | AtEnd

definition is_syntax_char :: "char \<Rightarrow> bool" where
  "is_syntax_char c = (c \<in> set ''^$.*+?()[]{}|/'' \<or> c = bslash)"

definition is_special_char :: "char \<Rightarrow> bool" where
  "is_special_char c = (c \<in> set ''^*+?()[]{}|'')"

fun parse_regexp :: "string \<Rightarrow> item list option" where
  "parse_regexp [] = Some []"
| "parse_regexp (c # cs) =
     (if c = CHR ''$'' then map_option (Cons AtEnd) (parse_regexp cs)
      else if c = bslash then
        (case cs of
           [] \<Rightarrow> None
         | d # ds \<Rightarrow>
             if \<not> is_syntax_char d then None
             else (case ds of
                     [] \<Rightarrow> Some [One (Lit d)]
                   | q # qs \<Rightarrow>
                       if q = CHR ''*'' then map_option (Cons (Many (Lit d))) (parse_regexp qs)
                       else if q = CHR ''+'' then
                         map_option (\<lambda>rs. One (Lit d) # Many (Lit d) # rs) (parse_regexp qs)
                       else map_option (Cons (One (Lit d))) (parse_regexp ds)))
      else if is_special_char c then None
      else (let a = (if c = CHR ''.'' then AnyChar else Lit c) in
            case cs of
              [] \<Rightarrow> Some [One a]
            | q # qs \<Rightarrow>
                if q = CHR ''*'' then map_option (Cons (Many a)) (parse_regexp qs)
                else if q = CHR ''+'' then
                  map_option (\<lambda>rs. One a # Many a # rs) (parse_regexp qs)
                else map_option (Cons (One a)) (parse_regexp cs)))"

text \<open>Without the \<open>s\<close> flag the dot matches every character but a line terminator.\<close>

fun atom_matches :: "atom \<Rightarrow> char \<Rightarrow> bool" where
  "atom_matches (Lit d) c = (c = d)"
| "atom_matches AnyChar c = (c \<noteq> CHR 0x0A \<and> c \<noteq> CHR 0x0D)"

text \<open>
  \<open>match_here rs s\<close>: the items match a prefix of \<open>s\<close> (with backtracking over the
  quantified items; without the \<open>m\<close> flag the end assertion holds at the end of the input
  only).
\<close>

fun match_here :: "item list \<Rightarrow> string \<Rightarrow> bool" where
  "match_here [] s = True"
| "match_here (AtEnd # rs) s = (s = [] \<and> match_here rs s)"
| "match_here (One a # rs) [] = False"
| "match_here (One a # rs) (c # cs) = (atom_matches a c \<and> match_here rs cs)"
| "match_here (Many a # rs) [] = match_here rs []"
| "match_here (Many a # rs) (c # cs) =
     (match_here rs (c # cs) \<or> (atom_matches a c \<and> match_here (Many a # rs) cs))"

text \<open>\<^verbatim>\<open>test\<close> searches: the expression may match at any start position.\<close>

fun match_anywhere :: "item list \<Rightarrow> string \<Rightarrow> bool" where
  "match_anywhere rs [] = match_here rs []"
| "match_anywhere rs (c # cs) = (match_here rs (c # cs) \<or> match_anywhere rs cs)"

definition regexp_test :: "string \<Rightarrow> string \<Rightarrow> bool option" where
  "regexp_test src s = map_option (\<lambda>rs. match_anywhere rs s) (parse_regexp src)"

text \<open>
  The characters both compilers leave with their literal meaning: everything but the star
  and the syntax characters that no replacement escapes. \<^verbatim>\<open>subscribeObject\<close> escapes
  fewer characters, so fewer are literal there.
\<close>

definition state_literal :: "char \<Rightarrow> bool" where
  "state_literal c = (c \<notin> set ''*?{}]^$|'' \<and> c \<noteq> bslash)"

definition object_literal :: "char \<Rightarrow> bool" where
  "object_literal c = (state_literal c \<and> c \<notin> set ''()+['')"

text \<open>What the replacements of each compiler do to one character of the pattern.\<close>

definition escape_state :: "char \<Rightarrow> string" where
  "escape_state c =
     (if c = CHR ''.'' then [bslash, CHR ''.'']
      else if c = CHR ''*'' then ''.*''
      else if c \<in> set ''()+['' then [bslash, c]
      else [c])"

definition escape_object :: "char \<Rightarrow> string" where
  "escape_object c =
     (if c = CHR ''.'' then [bslash, CHR ''.'']
      else if c = CHR ''*'' then ''.*''
      else [c])"

section \<open>Data\<close>

subsection \<open>Documents\<close>

text \<open>
  Objects and states are JSON documents as the transport delivers them. An object lists
  its properties in enumeration order; a property that is absent reads as
  \<^verbatim>\<open>undefined\<close>, which is \<open>None\<close>. Numbers are integers here: no claim depends on a
  fraction.
\<close>

datatype json =
    JNull
  | JBool bool
  | JNum int
  | JStr string
  | JArr "json list"
  | JObj "(string \<times> json) list"

type_synonym jobject = "(string \<times> json) list"

text \<open>JavaScript's conversion to a boolean, as \<^verbatim>\<open>if (x)\<close> and \<^verbatim>\<open>x && y\<close> apply it.\<close>

fun truthy :: "json option \<Rightarrow> bool" where
  "truthy None = False"
| "truthy (Some JNull) = False"
| "truthy (Some (JBool b)) = b"
| "truthy (Some (JNum n)) = (n \<noteq> 0)"
| "truthy (Some (JStr s)) = (s \<noteq> [])"
| "truthy (Some (JArr xs)) = True"
| "truthy (Some (JObj kvs)) = True"

definition get_prop :: "jobject \<Rightarrow> string \<Rightarrow> json option" where
  "get_prop obj k = map_of obj k"

text \<open>\<^verbatim>\<open>obj[k] = v\<close>: an existing property keeps its place, a new one goes last.\<close>

fun set_prop :: "jobject \<Rightarrow> string \<Rightarrow> json \<Rightarrow> jobject" where
  "set_prop [] k v = [(k, v)]"
| "set_prop ((k', v') # kvs) k v =
     (if k' = k then (k, v) # kvs else (k', v') # set_prop kvs k v)"

text \<open>\<^verbatim>\<open>delete obj[k]\<close>.\<close>

definition delete_prop :: "jobject \<Rightarrow> string \<Rightarrow> jobject" where
  "delete_prop obj k = filter (\<lambda>kv. fst kv \<noteq> k) obj"

text \<open>
  \<^verbatim>\<open>JSON.stringify(a) !== JSON.stringify(b)\<close> on two documents: the serialisation writes
  the properties in enumeration order and nothing else, so two documents serialise alike
  exactly when they are the same ordered tree.
\<close>

definition same_serialisation :: "jobject \<Rightarrow> jobject \<Rightarrow> bool" where
  "same_serialisation a b = (a = b)"

subsection \<open>Errors, promises, effects\<close>

text \<open>
  The members of \<^verbatim>\<open>ERRORS\<close> are strings, and a rejection reason is any value: a member of
  the enumeration is not told apart from an equal string sent by the backend.
\<close>

definition ERRORS_PERMISSION_ERROR :: json where
  "ERRORS_PERMISSION_ERROR = JStr ''permissionError''"

definition ERRORS_NOT_CONNECTED :: json where
  "ERRORS_NOT_CONNECTED = JStr ''notConnectedError''"

definition ERRORS_TIMEOUT :: json where
  "ERRORS_TIMEOUT = JStr ''timeout''"

definition ERRORS_NOT_ADMIN :: json where
  "ERRORS_NOT_ADMIN = JStr ''Allowed only in admin''"

definition ERRORS_NOT_SUPPORTED :: json where
  "ERRORS_NOT_SUPPORTED = JStr ''Not supported''"

datatype PROGRESS = CONNECTING | CONNECTED | OBJECTS_LOADED | READY

text \<open>
  A promise is known by its identity, a number handed out at construction; its state lives
  in the store of calls below. A callback is known by its identity as well.
\<close>

type_synonym promise = nat

type_synonym callback = nat

datatype outcome = Pending | Fulfilled "json option" | Rejected json

datatype timer = NoTimer | Armed nat | Cleared | Fired

text \<open>
  One call of \<^verbatim>\<open>request\<close> that reached the construction of its promise: the promise's
  state, the \<^verbatim>\<open>elapsed\<close> flag of its \<^verbatim>\<open>timeoutControl\<close>, and its timer.
\<close>

record call =
  outcome :: outcome
  elapsed :: bool
  timer :: timer

text \<open>The summary of the object an identifier had before: \<^verbatim>\<open>{ _id, type }\<close>.\<close>

type_synonym old_obj = "string \<times> json option"

text \<open>
  What the connection does to the world outside of its own fields. An optional hook of the
  properties (\<^verbatim>\<open>onProgress\<close>, \<^verbatim>\<open>onObjectChange\<close>, \<^verbatim>\<open>onTimeout\<close>) is recorded where the
  source calls it if present. Callbacks are opaque: they are recorded, not run.
  \<open>StampInherited\<close> is the one write that leaves the connection: the revision that
  \<^verbatim>\<open>objectChange\<close> assigns to a function every object inherits (see there).
\<close>

datatype effect =
    Emit string "json list"
  | StateCallback callback string "json option"
  | ObjectCallback callback string "jobject option" "old_obj option"
  | OnObjectChange string "jobject option"
  | OnTimeout promise
  | OnProgress PROGRESS
  | ConnectionHandlers bool
  | Reload
  | LoadData
  | FirstConnectionResolved
  | StampInherited string json

subsection \<open>Subscription registries\<close>

record sub_entry =
  reg :: "item list"
  cbs :: "callback list"

text \<open>
  A registry is a JavaScript object used as a dictionary. The association list keeps the
  entries in the order of their creation; \<open>own_keys\<close> is the order in which
  \<^verbatim>\<open>Object.keys\<close> and \<^verbatim>\<open>for ... in\<close> visit them: array indices first, ascending, then
  the other keys in creation order.
\<close>

type_synonym registry = "(string \<times> sub_entry) list"

definition index_value :: "string \<Rightarrow> nat" where
  "index_value k = foldl (\<lambda>n c. 10 * n + (of_char c - 48)) 0 k"

definition is_array_index :: "string \<Rightarrow> bool" where
  "is_array_index k =
     (k \<noteq> [] \<and> list_all (\<lambda>c. c \<in> set ''0123456789'') k \<and>
      (k = ''0'' \<or> hd k \<noteq> CHR ''0'') \<and> index_value k < 4294967295)"

definition own_keys :: "(string \<times> 'a) list \<Rightarrow> string list" where
  "own_keys al =
     sort_key index_value (filter is_array_index (map fst al)) @
     filter (\<lambda>k. \<not> is_array_index k) (map fst al)"

definition reg_update :: "registry \<Rightarrow> string \<Rightarrow> sub_entry \<Rightarrow> registry" where
  "reg_update r k e = map (\<lambda>kv. if fst kv = k then (k, e) else kv) r"

definition reg_delete :: "registry \<Rightarrow> string \<Rightarrow> registry" where
  "reg_delete r k = filter (\<lambda>kv. fst kv \<noteq> k) r"

text \<open>The invariant of a registry: no entry has an empty list of callbacks.\<close>

definition no_empty_entries :: "registry \<Rightarrow> bool" where
  "no_empty_entries r = list_all (\<lambda>kv. cbs (snd kv) \<noteq> []) r"

subsection \<open>The connection\<close>

text \<open>
  The fields of the class that the operations below read or write. \<open>window_socketUrl\<close> is
  the marker of the hosting page that \<^verbatim>\<open>isWeb\<close> reads. \<open>calls\<close> and \<open>next_promise\<close> are
  the promises \<^verbatim>\<open>request\<close> has constructed; \<open>first_connection\<close> is the state of the
  promise that \<^verbatim>\<open>waitForFirstConnection\<close> returns, \<open>first_connection_resolve\<close> tells
  whether \<^verbatim>\<open>_waitForFirstConnectionResolve\<close> is still defined.
\<close>

record connection =
  autoSubscribes :: "string list"
  autoSubscribeLog :: bool
  cmdTimeout :: nat
  window_socketUrl :: "string option"
  connected :: bool
  subscribed :: bool
  firstConnect :: bool
  waitForRestart :: bool
  loaded :: bool
  isSecure :: "bool option"
  authTimer :: bool
  statesSubscribes :: registry
  objectsSubscribes :: registry
  objects :: "(string \<rightharpoonup> jobject) option"
  states :: "string \<rightharpoonup> json"
  promises :: "string \<rightharpoonup> promise"
  calls :: "promise \<rightharpoonup> call"
  next_promise :: promise
  first_connection :: outcome
  first_connection_resolve :: bool

definition isWeb :: "connection \<Rightarrow> bool" where
  "isWeb st = (window_socketUrl st \<noteq> None)"

section \<open>Request coordinator\<close>

text \<open>
  \<^verbatim>\<open>commandTimeout?: number | false\<close>: left out, a number of milliseconds, or \<^verbatim>\<open>false\<close>.
\<close>

datatype timeout_opt = Default | Millis nat | Disabled

text \<open>
  What an executor can do with the three arguments it is given and with the socket: emit
  an event, fulfil or reject the promise, stop the timer, or throw. The \<open>executor\<close> of the
  options is the synchronous part of the body; whatever it does later (from an
  acknowledgement of the transport, say) arrives as a later \<open>signal\<close>.
\<close>

datatype action =
    SocketEmit string "json list"
  | Resolve "json option"
  | Reject json
  | ClearTimeout
  | Throw json

record request_options =
  cacheKey :: "string option"
  forceUpdate :: bool
  commandTimeout :: timeout_opt
  requireAdmin :: bool
  requireFeatures :: "string list"
  executor :: "action list"

text \<open>
  What a call of the asynchronous function \<^verbatim>\<open>request\<close> has come to: it returned a promise
  (its own outcome follows that promise), it failed with a reason, or it is suspended at
  \<^verbatim>\<open>await this.checkFeatureSupported(feature)\<close>, waiting for the result of that inner call
  with the features still to check.
\<close>

datatype request_result =
    Returned promise
  | Failed json
  | Suspended request_result "string list"

definition update_call :: "connection \<Rightarrow> promise \<Rightarrow> (call \<Rightarrow> call) \<Rightarrow> connection" where
  "update_call st p f =
     (case calls st p of None \<Rightarrow> st | Some c \<Rightarrow> st\<lparr>calls := (calls st)(p \<mapsto> f c)\<rparr>)"

text \<open>A promise is settled once: \<^verbatim>\<open>resolve\<close> and \<^verbatim>\<open>reject\<close> on a settled promise do nothing.\<close>

definition settle :: "outcome \<Rightarrow> call \<Rightarrow> call" where
  "settle r c = (if outcome c = Pending then c\<lparr>outcome := r\<rparr> else c)"

text \<open>
  \<^verbatim>\<open>timeoutControl.clearTimeout\<close>: a no-op unless there is a timer; clearing a timer that
  has fired does nothing.
\<close>

definition clear_timer :: "call \<Rightarrow> call" where
  "clear_timer c = (case timer c of Armed n \<Rightarrow> c\<lparr>timer := Cleared\<rparr> | _ \<Rightarrow> c)"

fun signal :: "connection \<Rightarrow> promise \<Rightarrow> action \<Rightarrow> connection \<times> effect list" where
  "signal st p (SocketEmit ev args) = (st, [Emit ev args])"
| "signal st p (Resolve v) = (update_call st p (settle (Fulfilled v)), [])"
| "signal st p (Reject e) = (update_call st p (settle (Rejected e)), [])"
| "signal st p ClearTimeout = (update_call st p clear_timer, [])"
| "signal st p (Throw e) = (update_call st p (settle (Rejected e)), [])"

text \<open>
  \<^verbatim>\<open>try { await executor(resolve, reject, timeoutControl) } catch (e) { reject(e) }\<close>:
  the actions run in order, and a throw ends the body.
\<close>

fun run_executor :: "connection \<Rightarrow> promise \<Rightarrow> action list \<Rightarrow> connection \<times> effect list" where
  "run_executor st p [] = (st, [])"
| "run_executor st p (a # as) =
     (case signal st p a of
        (st1, es1) \<Rightarrow>
          (case a of
             Throw e \<Rightarrow> (st1, es1)
           | _ \<Rightarrow> (case run_executor st1 p as of (st2, es2) \<Rightarrow> (st2, es1 @ es2))))"

text \<open>
  The callback of \<^verbatim>\<open>setTimeout\<close> (lines 768 to 773). A timer fires at most once, and not
  after it was cleared.
\<close>

definition timer_expired :: "connection \<Rightarrow> promise \<Rightarrow> connection \<times> effect list" where
  "timer_expired st p =
     (case calls st p of
        None \<Rightarrow> (st, [])
      | Some c \<Rightarrow>
          (case timer c of
             Armed n \<Rightarrow>
               (st\<lparr>calls := (calls st)(p \<mapsto> settle (Rejected ERRORS_TIMEOUT)
                                               (c\<lparr>elapsed := True, timer := Fired\<rparr>))\<rparr>,
                [OnTimeout p])
           | _ \<Rightarrow> (st, [])))"

text \<open>
  Lines 759 to 789: the promise is constructed, the timer armed unless the timeout is
  disabled, the executor run, and the promise stored under a truthy cache key.
\<close>

definition construct ::
  "connection \<Rightarrow> request_options \<Rightarrow> connection \<times> effect list \<times> request_result" where
  "construct st opts =
     (let p = next_promise st;
          c = \<lparr>outcome = Pending, elapsed = False,
               timer = (case commandTimeout opts of
                          Disabled \<Rightarrow> NoTimer
                        | Millis n \<Rightarrow> Armed n
                        | Default \<Rightarrow> Armed (cmdTimeout st))\<rparr>;
          st1 = st\<lparr>calls := (calls st)(p \<mapsto> c), next_promise := Suc p\<rparr>
      in case run_executor st1 p (executor opts) of
           (st2, es) \<Rightarrow>
             (case cacheKey opts of
                None \<Rightarrow> (st2, es, Returned p)
              | Some k \<Rightarrow>
                  if k \<noteq> [] then (st2\<lparr>promises := (promises st2)(k \<mapsto> p)\<rparr>, es, Returned p)
                  else (st2, es, Returned p)))"

text \<open>
  The test of line 741, \<^verbatim>\<open>cacheKey && !forceUpdate && cacheKey in this._promises\<close>, with
  the promise line 742 then returns. The keys of the cache are assumed not to be names that
  every object inherits (such as \<^verbatim>\<open>constructor\<close>); the keys the class itself uses are not.
\<close>

definition cached :: "connection \<Rightarrow> request_options \<Rightarrow> promise option" where
  "cached st opts =
     (case cacheKey opts of
        None \<Rightarrow> None
      | Some k \<Rightarrow> if k \<noteq> [] \<and> \<not> forceUpdate opts then promises st k else None)"

text \<open>The options \<^verbatim>\<open>checkFeatureSupported(feature)\<close> passes on (lines 1781 to 1797).\<close>

definition checkFeatureSupported_options :: "string \<Rightarrow> request_options" where
  "checkFeatureSupported_options feature =
     \<lparr>cacheKey = Some (''supportedFeatures_'' @ feature), forceUpdate = False,
      commandTimeout = Disabled, requireAdmin = False, requireFeatures = [],
      executor = [SocketEmit ''checkFeatureSupported'' [JStr feature]]\<rparr>"

text \<open>
  \<^verbatim>\<open>request\<close> up to its first suspension (lines 735 to 790). Without required features
  it runs to its end in one piece; with them it calls \<^verbatim>\<open>checkFeatureSupported\<close> for the
  first one and waits. \<^verbatim>\<open>checkFeatureSupported\<close> only passes on what its own call of
  \<^verbatim>\<open>request\<close> returns, so the promise awaited at line 753 settles as the result of that
  inner call does, and the suspended result records the inner result.
\<close>

function request ::
  "connection \<Rightarrow> request_options \<Rightarrow> connection \<times> effect list \<times> request_result" where
  "request st opts =
     (if requireAdmin opts \<and> isWeb st then (st, [], Failed ERRORS_NOT_ADMIN)
      else case cached st opts of
        Some p \<Rightarrow> (st, [], Returned p)
      | None \<Rightarrow>
          if \<not> connected st then (st, [], Failed ERRORS_NOT_CONNECTED)
          else (case requireFeatures opts of
                  [] \<Rightarrow> construct st opts
                | f # fs \<Rightarrow>
                    (case request st (checkFeatureSupported_options f) of
                       (st1, es, r) \<Rightarrow> (st1, es, Suspended r fs))))"
  by pat_completeness auto
termination
  by (relation "measure (\<lambda>(st, opts). length (requireFeatures opts))")
     (auto simp: checkFeatureSupported_options_def)

declare request.simps [simp del]

text \<open>The state of what a suspended call waits for.\<close>

fun result_outcome :: "connection \<Rightarrow> request_result \<Rightarrow> outcome" where
  "result_outcome st (Returned p) = (case calls st p of None \<Rightarrow> Pending | Some c \<Rightarrow> outcome c)"
| "result_outcome st (Failed e) = Rejected e"
| "result_outcome st (Suspended r fs) = Pending"

text \<open>
  The continuation of a suspended call (lines 752 to 790): nothing happens while the
  awaited result is pending; a rejection is thrown on; a falsy answer throws
  \<^verbatim>\<open>NOT_SUPPORTED\<close>; otherwise the loop goes to the next feature, or the promise is
  constructed.
\<close>

definition request_resume ::
  "connection \<Rightarrow> request_options \<Rightarrow> request_result \<Rightarrow> string list \<Rightarrow>
   connection \<times> effect list \<times> request_result" where
  "request_resume st opts awaited fs =
     (case result_outcome st awaited of
        Pending \<Rightarrow> (st, [], Suspended awaited fs)
      | Rejected e \<Rightarrow> (st, [], Failed e)
      | Fulfilled v \<Rightarrow>
          if \<not> truthy v then (st, [], Failed ERRORS_NOT_SUPPORTED)
          else (case fs of
                  [] \<Rightarrow> construct st opts
                | f # fs' \<Rightarrow>
                    (case request st (checkFeatureSupported_options f) of
                       (st1, es, r) \<Rightarrow> (st1, es, Suspended r fs'))))"

text \<open>
  \<^verbatim>\<open>request\<close> is an \<^verbatim>\<open>async\<close> function (line 723), and the function above is its body.
  The call itself hands a promise of its own to the caller at once, and that promise
  follows what the body comes to: it settles as the promise the body returns, is rejected
  with the reason the body fails with, and stays pending while the body is suspended. So
  the caller never holds the promise of the cache itself. The result lists the caller's
  promise before what it follows.
\<close>

definition request_async ::
  "connection \<Rightarrow> request_options \<Rightarrow> connection \<times> effect list \<times> promise \<times> request_result" where
  "request_async st opts =
     (let w = next_promise st
      in case request (st\<lparr>next_promise := Suc w\<rparr>) opts of
           (st1, es, r) \<Rightarrow> (st1, es, w, r))"

text \<open>
  \<^verbatim>\<open>cmdExec\<close> (lines 1463 to 1483). \<^verbatim>\<open>normalizeHostId\<close> comes from a module outside of
  this file and is a parameter. The acknowledgement of the transport is dropped once the
  timeout has elapsed; otherwise it stops the timer, rejects on an error, and resolves.
\<close>

definition cmdExec_options ::
  "(string \<Rightarrow> string) \<Rightarrow> string \<Rightarrow> string \<Rightarrow> string \<Rightarrow> nat option \<Rightarrow> request_options" where
  "cmdExec_options normalizeHostId host cmd cmdId cmdTimeout' =
     \<lparr>cacheKey = None, forceUpdate = False,
      commandTimeout = (case cmdTimeout' of None \<Rightarrow> Default | Some n \<Rightarrow> Millis n),
      requireAdmin = False, requireFeatures = [],
      executor = [SocketEmit ''cmdExec'' [JStr (normalizeHostId host), JStr cmdId, JStr cmd]]\<rparr>"

definition cmdExec_ack :: "connection \<Rightarrow> promise \<Rightarrow> json option \<Rightarrow> connection \<times> effect list" where
  "cmdExec_ack st p err =
     (case calls st p of
        None \<Rightarrow> (st, [])
      | Some c \<Rightarrow>
          if elapsed c then (st, [])
          else (let st1 = fst (signal st p ClearTimeout);
                    st2 = (case err of
                             None \<Rightarrow> st1
                           | Some e \<Rightarrow>
                               if truthy (Some e) then fst (signal st1 p (Reject e)) else st1)
                in signal st2 p (Resolve None)))"

text \<open>
  What can happen to a call after its construction: its timer expires, its executor uses
  one of its handles, or (for \<^verbatim>\<open>cmdExec\<close>) the transport acknowledges.
\<close>

datatype call_event = TimerExpires | Signal action | CmdExecAck "json option"

fun call_step :: "connection \<Rightarrow> promise \<Rightarrow> call_event \<Rightarrow> connection \<times> effect list" where
  "call_step st p TimerExpires = timer_expired st p"
| "call_step st p (Signal a) = signal st p a"
| "call_step st p (CmdExecAck err) = cmdExec_ack st p err"

fun run_call_events :: "connection \<Rightarrow> promise \<Rightarrow> call_event list \<Rightarrow> connection \<times> effect list" where
  "run_call_events st p [] = (st, [])"
| "run_call_events st p (ev # evs) =
     (case call_step st p ev of
        (st1, es1) \<Rightarrow> (case run_call_events st1 p evs of (st2, es2) \<Rightarrow> (st2, es1 @ es2)))"

text \<open>
  An executor body that never completes does nothing but talk to the socket: it never
  uses \<^verbatim>\<open>resolve\<close>, \<^verbatim>\<open>reject\<close> or \<^verbatim>\<open>clearTimeout\<close>, and it does not throw.
\<close>

fun is_SocketEmit :: "action \<Rightarrow> bool" where
  "is_SocketEmit (SocketEmit ev args) = True"
| "is_SocketEmit a = False"

fun is_Emit :: "effect \<Rightarrow> bool" where
  "is_Emit (Emit ev args) = True"
| "is_Emit e = False"

text \<open>A call whose timer has fired and rejected it.\<close>

definition timed_out :: "call \<Rightarrow> bool" where
  "timed_out c = (outcome c = Rejected ERRORS_TIMEOUT \<and> elapsed c \<and> timer c = Fired)"

text \<open>Two connections that differ in the store of calls at most.\<close>

definition only_calls_differ :: "connection \<Rightarrow> connection \<Rightarrow> bool" where
  "only_calls_differ st st' = (st'\<lparr>calls := calls st\<rparr> = st)"

section \<open>Subscription registries\<close>

definition getBinaryState_options :: "string \<Rightarrow> request_options" where
  "getBinaryState_options ident =
     \<lparr>cacheKey = None, forceUpdate = False, commandTimeout = Disabled,
      requireAdmin = False, requireFeatures = [],
      executor = [SocketEmit ''getBinaryState'' [JStr ident]]\<rparr>"

text \<open>
  \<^verbatim>\<open>subscribeState(id, binary, cb)\<close>, lines 514 to 569, after the shuffle of the optional
  argument. The result is \<open>None\<close> when \<^verbatim>\<open>new RegExp\<close> has no value in the model of the
  expressions above; the source then either throws before it touches the registry, or
  works with an expression this model does not cover.
\<close>

definition subscribeState ::
  "connection \<Rightarrow> string \<Rightarrow> bool \<Rightarrow> callback \<Rightarrow> (connection \<times> effect list) option" where
  "subscribeState st ident binary cb =
     (let registered =
        (case map_of (statesSubscribes st) ident of
           None \<Rightarrow>
             (case parse_regexp (compile_state_pattern ident) of
                None \<Rightarrow> None
              | Some r \<Rightarrow>
                  Some (st\<lparr>statesSubscribes :=
                             statesSubscribes st @ [(ident, \<lparr>reg = r, cbs = [cb]\<rparr>)]\<rparr>,
                        if connected st then [Emit ''subscribe'' [JStr ident]] else []))
         | Some e \<Rightarrow>
             Some (if cb \<in> set (cbs e) then st
                   else st\<lparr>statesSubscribes :=
                             reg_update (statesSubscribes st) ident (e\<lparr>cbs := cbs e @ [cb]\<rparr>)\<rparr>,
                   []))
      in case registered of
           None \<Rightarrow> None
         | Some (st1, es1) \<Rightarrow>
             if connected st1 then
               (if binary then
                  (case request st1 (getBinaryState_options ident) of
                     (st2, es2, r) \<Rightarrow> Some (st2, es1 @ es2))
                else Some (st1, es1 @ [Emit ''getForeignStates'' [JStr ident]]))
             else Some (st1, es1))"

text \<open>
  \<^verbatim>\<open>unsubscribeState(id, cb?)\<close>, lines 580 to 597. \<^verbatim>\<open>indexOf\<close> and \<^verbatim>\<open>splice\<close>
  remove the first occurrence of the callback.
\<close>

definition unsubscribeState ::
  "connection \<Rightarrow> string \<Rightarrow> callback option \<Rightarrow> connection \<times> effect list" where
  "unsubscribeState st ident cb =
     (case map_of (statesSubscribes st) ident of
        None \<Rightarrow> (st, [])
      | Some e \<Rightarrow>
          (let cbs' = (case cb of Some c \<Rightarrow> remove1 c (cbs e) | None \<Rightarrow> [])
           in if cbs' = [] then
                (st\<lparr>statesSubscribes := reg_delete (statesSubscribes st) ident\<rparr>,
                 if connected st then [Emit ''unsubscribe'' [JStr ident]] else [])
              else
                (st\<lparr>statesSubscribes :=
                      reg_update (statesSubscribes st) ident (e\<lparr>cbs := cbs'\<rparr>)\<rparr>, [])))"

text \<open>\<^verbatim>\<open>subscribeObject(id, cb)\<close>, lines 604 to 621.\<close>

definition subscribeObject ::
  "connection \<Rightarrow> string \<Rightarrow> callback \<Rightarrow> (connection \<times> effect list) option" where
  "subscribeObject st ident cb =
     (case map_of (objectsSubscribes st) ident of
        None \<Rightarrow>
          (case parse_regexp (compile_object_pattern ident) of
             None \<Rightarrow> None
           | Some r \<Rightarrow>
               Some (st\<lparr>objectsSubscribes :=
                          objectsSubscribes st @ [(ident, \<lparr>reg = r, cbs = [cb]\<rparr>)]\<rparr>,
                     if connected st then [Emit ''subscribeObjects'' [JStr ident]] else []))
      | Some e \<Rightarrow>
          Some (if cb \<in> set (cbs e) then st
                else st\<lparr>objectsSubscribes :=
                          reg_update (objectsSubscribes st) ident (e\<lparr>cbs := cbs e @ [cb]\<rparr>)\<rparr>,
                []))"

text \<open>
  \<^verbatim>\<open>unsubscribeObject(id, cb)\<close>, lines 632 to 654. The entry is deleted under the
  condition \<^verbatim>\<open>this.connected && (!cbs || !cbs.length)\<close>; otherwise it stays with the
  callbacks that are left.
\<close>

definition unsubscribeObject ::
  "connection \<Rightarrow> string \<Rightarrow> callback option \<Rightarrow> connection \<times> effect list" where
  "unsubscribeObject st ident cb =
     (case map_of (objectsSubscribes st) ident of
        None \<Rightarrow> (st, [])
      | Some e \<Rightarrow>
          (let cbs' = (case cb of Some c \<Rightarrow> remove1 c (cbs e) | None \<Rightarrow> [])
           in if connected st \<and> cbs' = [] then
                (st\<lparr>objectsSubscribes := reg_delete (objectsSubscribes st) ident\<rparr>,
                 if connected st then [Emit ''unsubscribeObjects'' [JStr ident]] else [])
              else
                (st\<lparr>objectsSubscribes :=
                      reg_update (objectsSubscribes st) ident (e\<lparr>cbs := cbs'\<rparr>)\<rparr>, [])))"

text \<open>\<^verbatim>\<open>_subscribe(isEnable)\<close>, lines 931 to 966.\<close>

definition subscribe_all :: "connection \<Rightarrow> bool \<Rightarrow> connection \<times> effect list" where
  "subscribe_all st isEnable =
     (if isEnable \<and> \<not> subscribed st then
        (st\<lparr>subscribed := True\<rparr>,
         map (\<lambda>k. Emit ''subscribeObjects'' [JStr k]) (autoSubscribes st) @
         map (\<lambda>k. Emit ''subscribeObjects'' [JStr k]) (own_keys (objectsSubscribes st)) @
         (if autoSubscribeLog st then [Emit ''requireLog'' [JBool True]] else []) @
         map (\<lambda>k. Emit ''subscribe'' [JStr k]) (own_keys (statesSubscribes st)))
      else if \<not> isEnable \<and> subscribed st then
        (st\<lparr>subscribed := False\<rparr>,
         map (\<lambda>k. Emit ''unsubscribeObjects'' [JStr k]) (autoSubscribes st) @
         map (\<lambda>k. Emit ''unsubscribeObjects'' [JStr k]) (own_keys (objectsSubscribes st)) @
         (if autoSubscribeLog st then [Emit ''requireLog'' [JBool False]] else []) @
         map (\<lambda>k. Emit ''unsubscribe'' [JStr k]) (own_keys (statesSubscribes st)))
      else (st, []))"

section \<open>Change notifications\<close>

text \<open>
  The calls of lines 693 to 699: every entry whose key is the identifier or whose
  expression accepts it hands the notification to its callbacks, in their order.
\<close>

definition object_fanout ::
  "registry \<Rightarrow> string \<Rightarrow> jobject option \<Rightarrow> old_obj option \<Rightarrow> effect list" where
  "object_fanout r ident obj oldObj =
     concat (map (\<lambda>k. case map_of r k of
                        None \<Rightarrow> []
                      | Some e \<Rightarrow>
                          if k = ident \<or> match_anywhere (reg e) ident
                          then map (\<lambda>cb. ObjectCallback cb ident obj oldObj) (cbs e)
                          else [])
                 (own_keys r))"

text \<open>
  The mirror \<^verbatim>\<open>this.objects\<close> is a plain object, and \<^verbatim>\<open>this.objects[id]\<close> reads what
  the object inherits as well: for an identifier that names a property of
  \<^verbatim>\<open>Object.prototype\<close> and has no entry of its own, the value is the inherited function,
  which is truthy. The map holds the entries of the mirror itself.
\<close>

definition object_prototype_names :: "string list" where
  "object_prototype_names =
     [''constructor'', ''hasOwnProperty'', ''isPrototypeOf'', ''propertyIsEnumerable'',
      ''toLocaleString'', ''toString'', ''valueOf'', ''__defineGetter__'',
      ''__defineSetter__'', ''__lookupGetter__'', ''__lookupSetter__'']"

datatype lookup = Own jobject | Inherited | Absent

definition objects_get :: "(string \<rightharpoonup> jobject) \<Rightarrow> string \<Rightarrow> lookup" where
  "objects_get m ident =
     (case m ident of
        Some cur \<Rightarrow> Own cur
      | None \<Rightarrow> if ident \<in> set object_prototype_names then Inherited else Absent)"

text \<open>
  Lines 672 to 674, \<^verbatim>\<open>if (obj._rev && this.objects[id]) this.objects[id]._rev = obj._rev\<close>,
  on the stored object \<open>cur\<close>: a truthy revision of the incoming object is written into
  it.
\<close>

definition stamp_rev :: "jobject \<Rightarrow> jobject \<Rightarrow> jobject" where
  "stamp_rev cur ob =
     (case get_prop ob ''_rev'' of
        None \<Rightarrow> cur
      | Some stamp \<Rightarrow> if truthy (Some stamp) then set_prop cur ''_rev'' stamp else cur)"

text \<open>
  The same lines where \<^verbatim>\<open>this.objects[id]\<close> is an inherited function: the revision is
  assigned to that function, outside of the mirror.
\<close>

definition stamp_inherited :: "string \<Rightarrow> jobject \<Rightarrow> effect list" where
  "stamp_inherited ident ob =
     (case get_prop ob ''_rev'' of
        None \<Rightarrow> []
      | Some stamp \<Rightarrow> if truthy (Some stamp) then [StampInherited ident stamp] else [])"

text \<open>
  Lines 676 to 678 and 688, \<^verbatim>\<open>oldObj = { _id: id, type: this.objects[id].type }\<close> if
  \<^verbatim>\<open>this.objects[id]\<close> is truthy. An inherited function has no property \<^verbatim>\<open>type\<close>.
\<close>

definition previous_summary :: "(string \<rightharpoonup> jobject) \<Rightarrow> string \<Rightarrow> old_obj option" where
  "previous_summary m ident =
     (case objects_get m ident of
        Own cur \<Rightarrow> Some (ident, get_prop cur ''type'')
      | Inherited \<Rightarrow> Some (ident, None)
      | Absent \<Rightarrow> None)"

text \<open>
  \<^verbatim>\<open>objectChange(id, obj)\<close>, lines 661 to 704. The result lists the new connection, the
  effects, and the local flag \<^verbatim>\<open>changed\<close>. Without a mirror the function returns at once.
  \<^verbatim>\<open>JSON.stringify\<close> of a function is \<^verbatim>\<open>undefined\<close> and differs from the serialisation of
  every object, so an inherited function is always replaced by an entry of the mirror's
  own. For the identifier \<^verbatim>\<open>__proto__\<close> the reads and the assignment go to the prototype
  of the mirror itself; the model has no value for that identifier and answers \<open>None\<close>.
\<close>

definition objectChange ::
  "connection \<Rightarrow> string \<Rightarrow> jobject option \<Rightarrow> (connection \<times> effect list \<times> bool) option" where
  "objectChange st ident obj =
     (case objects st of
        None \<Rightarrow> Some (st, [], False)
      | Some m \<Rightarrow>
          if ident = ''__proto__'' then None
          else
            (let (m', stamped, oldObj, changed) =
               (case obj of
                  Some ob \<Rightarrow>
                    (let (m1, stamped) =
                           (case objects_get m ident of
                              Own cur \<Rightarrow> (m(ident \<mapsto> stamp_rev cur ob), [])
                            | Inherited \<Rightarrow> (m, stamp_inherited ident ob)
                            | Absent \<Rightarrow> (m, []));
                         oldObj = previous_summary m1 ident
                     in case objects_get m1 ident of
                          Own cur \<Rightarrow>
                            if \<not> same_serialisation cur ob
                            then (m1(ident \<mapsto> ob), stamped, oldObj, True)
                            else (m1, stamped, oldObj, False)
                        | Inherited \<Rightarrow> (m1(ident \<mapsto> ob), stamped, oldObj, True)
                        | Absent \<Rightarrow> (m1(ident \<mapsto> ob), stamped, oldObj, True))
                | None \<Rightarrow>
                    (case objects_get m ident of
                       Absent \<Rightarrow> (m, [], None, False)
                     | _ \<Rightarrow> (m(ident := None), [], previous_summary m ident, True)))
             in Some (st\<lparr>objects := Some m'\<rparr>,
                      stamped @ object_fanout (objectsSubscribes st) ident obj oldObj @
                      (if changed then [OnObjectChange ident obj] else []),
                      changed)))"

text \<open>\<^verbatim>\<open>stateChange(id, state)\<close>, lines 711 to 720.\<close>

definition stateChange :: "connection \<Rightarrow> string \<Rightarrow> json option \<Rightarrow> connection \<times> effect list" where
  "stateChange st ident state =
     (st, concat (map (\<lambda>task. case map_of (statesSubscribes st) task of
                                None \<Rightarrow> []
                              | Some e \<Rightarrow>
                                  if match_anywhere (reg e) ident
                                  then map (\<lambda>cb. StateCallback cb ident state) (cbs e)
                                  else [])
                       (own_keys (statesSubscribes st))))"

section \<open>Connection lifecycle\<close>

text \<open>
  The constructor, lines 73 to 100, for the properties this model reads, and the marker
  of the hosting page. \<^verbatim>\<open>Math.max(props.cmdTimeout || 5000, 5000)\<close> is the floor of the
  command timeout.
\<close>

definition new_connection ::
  "string list option \<Rightarrow> bool option \<Rightarrow> nat option \<Rightarrow> string option \<Rightarrow> connection" where
  "new_connection props_autoSubscribes props_autoSubscribeLog props_cmdTimeout socketUrl =
     \<lparr>autoSubscribes = (case props_autoSubscribes of None \<Rightarrow> [] | Some l \<Rightarrow> l),
      autoSubscribeLog = (case props_autoSubscribeLog of None \<Rightarrow> False | Some b \<Rightarrow> b),
      cmdTimeout = max (case props_cmdTimeout of
                          None \<Rightarrow> 5000
                        | Some n \<Rightarrow> if n = 0 then 5000 else n) 5000,
      window_socketUrl = socketUrl,
      connected = False, subscribed = False, firstConnect = True,
      waitForRestart = False, loaded = False, isSecure = None, authTimer = False,
      statesSubscribes = [], objectsSubscribes = [],
      objects = None, states = Map.empty, promises = Map.empty,
      calls = Map.empty, next_promise = 0,
      first_connection = Pending, first_connection_resolve = True\<rparr>"

text \<open>
  \<^verbatim>\<open>onPreConnect(isOk, isSecure)\<close>, lines 346 to 372. \<^verbatim>\<open>isOk\<close> is not read. The
  bootstrap that \<^verbatim>\<open>loadData\<close> starts is recorded as an effect and not followed further.
\<close>

definition onPreConnect :: "connection \<Rightarrow> bool \<Rightarrow> bool \<Rightarrow> connection \<times> effect list" where
  "onPreConnect st isOk isSecure' =
     (let st1 = st\<lparr>authTimer := False, connected := True, isSecure := Some isSecure'\<rparr>;
          (st2, es) =
            (if waitForRestart st1 then (st1, [Reload])
             else (case subscribe_all st1 True of
                     (st', es') \<Rightarrow>
                       (st', (if firstConnect st1 then [LoadData] else [OnProgress READY]) @
                             es' @ [ConnectionHandlers True])))
      in if first_connection_resolve st2
         then (st2\<lparr>first_connection :=
                     (if first_connection st2 = Pending then Fulfilled None
                      else first_connection st2),
                   first_connection_resolve := False\<rparr>,
               es @ [FirstConnectionResolved])
         else (st2, es))"

text \<open>The handlers of the transport's \<^verbatim>\<open>reconnect\<close> and \<^verbatim>\<open>disconnect\<close> events.\<close>

definition on_reconnect :: "connection \<Rightarrow> connection \<times> effect list" where
  "on_reconnect st =
     (let st1 = st\<lparr>connected := True\<rparr>
      in if waitForRestart st1 then (st1, [OnProgress READY, Reload])
         else (case subscribe_all st1 True of
                 (st', es') \<Rightarrow> (st', [OnProgress READY] @ es' @ [ConnectionHandlers True])))"

definition on_disconnect :: "connection \<Rightarrow> connection \<times> effect list" where
  "on_disconnect st =
     (st\<lparr>connected := False, subscribed := False\<rparr>,
      [OnProgress CONNECTING, ConnectionHandlers False])"

text \<open>
  The step of the bootstrap that marks the data as loaded (lines 420 to 426 and 439 to
  445).
\<close>

definition bootstrap_loaded :: "connection \<Rightarrow> connection \<times> effect list" where
  "bootstrap_loaded st =
     (if loaded st then (st, [])
      else (st\<lparr>loaded := True, firstConnect := False\<rparr>, [OnProgress CONNECTED]))"

datatype lifecycle_event = PreConnect bool bool | Reconnect | Disconnect | Bootstrapped

fun lifecycle_step :: "connection \<Rightarrow> lifecycle_event \<Rightarrow> connection \<times> effect list" where
  "lifecycle_step st (PreConnect isOk sec) = onPreConnect st isOk sec"
| "lifecycle_step st Reconnect = on_reconnect st"
| "lifecycle_step st Disconnect = on_disconnect st"
| "lifecycle_step st Bootstrapped = bootstrap_loaded st"

fun lifecycle_run :: "connection \<Rightarrow> lifecycle_event list \<Rightarrow> connection \<times> effect list" where
  "lifecycle_run st [] = (st, [])"
| "lifecycle_run st (ev # evs) =
     (case lifecycle_step st ev of
        (st1, es1) \<Rightarrow> (case lifecycle_run st1 evs of (st2, es2) \<Rightarrow> (st2, es1 @ es2)))"

definition is_PreConnect :: "lifecycle_event \<Rightarrow> bool" where
  "is_PreConnect ev = (case ev of PreConnect isOk sec \<Rightarrow> True | _ \<Rightarrow> False)"

section \<open>Writing objects\<close>

text \<open>
  \<^verbatim>\<open>setObject\<close> and \<^verbatim>\<open>extendObject\<close> receive a reference to an object of the caller (or
  null), so the objects live in a heap here: a list of documents, a reference being a
  position in it. What lies below the top level of a document is part of its value: two
  heap objects share nothing, and the deletions of both functions act on the top level
  only. A reference beyond the heap does not exist in JavaScript; the model answers
  \<open>None\<close> for it.
\<close>

type_synonym heap = "jobject list"

text \<open>
  \<^verbatim>\<open>obj = JSON.parse(JSON.stringify(obj))\<close>: the document is written out and read back into
  a new object, to which the local variable then refers.
\<close>

definition JSON_copy :: "heap \<Rightarrow> nat \<Rightarrow> heap \<times> nat" where
  "JSON_copy h a = (h @ [h ! a], length h)"

text \<open>\<^verbatim>\<open>delete obj.k\<close> on the object at a position of the heap.\<close>

definition heap_delete :: "heap \<Rightarrow> nat \<Rightarrow> string \<Rightarrow> heap" where
  "heap_delete h a k = h[a := delete_prop (h ! a) k]"

text \<open>
  The options both functions pass to \<^verbatim>\<open>request\<close>: no timeout, and an executor that emits
  the event with the identifier and the object.
\<close>

definition write_options :: "string \<Rightarrow> string \<Rightarrow> jobject \<Rightarrow> request_options" where
  "write_options ev ident content =
     \<lparr>cacheKey = None, forceUpdate = False, commandTimeout = Disabled,
      requireAdmin = False, requireFeatures = [],
      executor = [SocketEmit ev [JStr ident, JObj content]]\<rparr>"

text \<open>\<^verbatim>\<open>setObject(id, obj)\<close>, lines 1021 to 1041.\<close>

definition setObject ::
  "heap \<Rightarrow> connection \<Rightarrow> string \<Rightarrow> nat option \<Rightarrow>
   (heap \<times> connection \<times> effect list \<times> request_result) option" where
  "setObject h st ident obj =
     (case obj of
        None \<Rightarrow> Some (h, st, [], Failed (JStr ''Null object is not allowed''))
      | Some a \<Rightarrow>
          if \<not> a < length h then None
          else (case JSON_copy h a of
                  (h1, a') \<Rightarrow>
                    (let h2 = heap_delete h1 a' ''from'';
                         h3 = heap_delete h2 a' ''user'';
                         h4 = heap_delete h3 a' ''ts''
                     in case request st (write_options ''setObject'' ident (h4 ! a')) of
                          (st', es, r) \<Rightarrow> Some (h4, st', es, r))))"

text \<open>\<^verbatim>\<open>extendObject(id, obj)\<close>, lines 1094 to 1114.\<close>

definition extendObject ::
  "heap \<Rightarrow> connection \<Rightarrow> string \<Rightarrow> nat option \<Rightarrow>
   (heap \<times> connection \<times> effect list \<times> request_result) option" where
  "extendObject h st ident obj =
     (case obj of
        None \<Rightarrow> Some (h, st, [], Failed (JStr ''Null object is not allowed''))
      | Some a \<Rightarrow>
          if \<not> a < length h then None
          else (case JSON_copy h a of
                  (h1, a') \<Rightarrow>
                    (let h2 = heap_delete h1 a' ''from'';
                         h3 = heap_delete h2 a' ''user'';
                         h4 = heap_delete h3 a' ''ts''
                     in case request st (write_options ''extendObject'' ident (h4 ! a')) of
                          (st', es, r) \<Rightarrow> Some (h4, st', es, r))))"

text \<open>A document without the properties \<^verbatim>\<open>from\<close>, \<^verbatim>\<open>user\<close> and \<^verbatim>\<open>ts\<close>.\<close>

definition stripped :: "jobject \<Rightarrow> jobject" where
  "stripped obj = filter (\<lambda>kv. fst kv \<notin> {''from'', ''user'', ''ts''}) obj"

section \<open>The connection at work\<close>

text \<open>
  Whatever can happen to a connection between two calls: a call of \<^verbatim>\<open>request\<close> by any
  of the wrappers, the resumption of a suspended call, an event of a constructed call, an
  event of the transport, a subscription or its end, and a change notification. A step has
  no value where one of the operations has none.
\<close>

datatype system_event =
    Call request_options
  | Resume request_options request_result "string list"
  | OfCall promise call_event
  | OfTransport lifecycle_event
  | SubscribeState string bool callback
  | UnsubscribeState string "callback option"
  | SubscribeObject string callback
  | UnsubscribeObject string "callback option"
  | ObjectChange string "jobject option"
  | StateChange string "json option"

fun system_step :: "connection \<Rightarrow> system_event \<Rightarrow> connection option" where
  "system_step st (Call opts) = Some (fst (request_async st opts))"
| "system_step st (Resume opts awaited fs) = Some (fst (request_resume st opts awaited fs))"
| "system_step st (OfCall p ev) = Some (fst (call_step st p ev))"
| "system_step st (OfTransport ev) = Some (fst (lifecycle_step st ev))"
| "system_step st (SubscribeState ident binary cb) =
     map_option fst (subscribeState st ident binary cb)"
| "system_step st (UnsubscribeState ident cb) = Some (fst (unsubscribeState st ident cb))"
| "system_step st (SubscribeObject ident cb) = map_option fst (subscribeObject st ident cb)"
| "system_step st (UnsubscribeObject ident cb) = Some (fst (unsubscribeObject st ident cb))"
| "system_step st (ObjectChange ident obj) = map_option fst (objectChange st ident obj)"
| "system_step st (StateChange ident state) = Some (fst (stateChange st ident state))"

fun system_run :: "connection \<Rightarrow> system_event list \<Rightarrow> connection option" where
  "system_run st [] = Some st"
| "system_run st (ev # evs) =
     (case system_step st ev of None \<Rightarrow> None | Some st1 \<Rightarrow> system_run st1 evs)"

text \<open>
  The events that can store a new promise under a cache key that already holds one: a call
  with that key and a forced update, and the resumption of a call with that key, which was
  suspended before the entry existed.
\<close>

fun replaces_key :: "string \<Rightarrow> system_event \<Rightarrow> bool" where
  "replaces_key k (Call opts) = (cacheKey opts = Some k \<and> forceUpdate opts)"
| "replaces_key k (Resume opts awaited fs) = (cacheKey opts = Some k)"
| "replaces_key k ev = False"

text \<open>The entry under a key is kept, and no identity of a promise is handed out twice.\<close>

definition keeps_entry :: "string \<Rightarrow> promise \<Rightarrow> connection \<Rightarrow> connection \<Rightarrow> bool" where
  "keeps_entry k p st st' =
     (promises st' k = Some p \<and> next_promise st \<le> next_promise st')"

section \<open>Scenarios\<close>

text \<open>
  Concrete connections and options, on which the properties below are run. \<open>online\<close> is a
  fresh connection after its handshake; \<open>web_page\<close> is a disconnected one in a page that
  sets the marker of the web mode and holds a cached promise under the key \<open>k\<close>.
\<close>

definition online :: connection where
  "online = (new_connection None None None None)\<lparr>connected := True\<rparr>"

definition web_page :: connection where
  "web_page = (new_connection None None None (Some ''http://host:8082''))\<lparr>
     promises := [''k'' \<mapsto> 7]\<rparr>"

definition plain_opts :: request_options where
  "plain_opts =
     \<lparr>cacheKey = Some ''k'', forceUpdate = False, commandTimeout = Disabled,
      requireAdmin = False, requireFeatures = [],
      executor = [SocketEmit ''getX'' []]\<rparr>"

definition forced_opts :: request_options where
  "forced_opts = plain_opts\<lparr>forceUpdate := True\<rparr>"

definition admin_opts :: request_options where
  "admin_opts = plain_opts\<lparr>requireAdmin := True\<rparr>"

definition feature_opts :: request_options where
  "feature_opts =
     \<lparr>cacheKey = Some ''k'', forceUpdate = False, commandTimeout = Disabled,
      requireAdmin = False, requireFeatures = [''F''],
      executor = [SocketEmit ''getX'' []]\<rparr>"

text \<open>
  A call of \<^verbatim>\<open>cmdExec\<close> with a timeout of five milliseconds on the connected client, and
  the connection after its timer has expired.
\<close>

definition cmdExec_opts :: request_options where
  "cmdExec_opts = cmdExec_options (\<lambda>h. h) ''system.host.a'' ''ls'' ''cmd1'' (Some 5)"

definition cmdExec_started :: connection where
  "cmdExec_started = fst (request online cmdExec_opts)"

definition cmdExec_timed_out :: connection where
  "cmdExec_timed_out = fst (timer_expired cmdExec_started 0)"

text \<open>
  A connected client with two state subscriptions, as \<^verbatim>\<open>subscribeState\<close> builds them
  for the patterns \<^verbatim>\<open>a.*\<close> (callbacks 1 and 2) and \<^verbatim>\<open>b\<close> (callback 3), and a state
  payload.
\<close>

definition watching :: connection where
  "watching = online\<lparr>statesSubscribes :=
     [(''a.*'', \<lparr>reg = [One (Lit (CHR ''a'')), One (Lit (CHR ''.'')), Many AnyChar], cbs = [1, 2]\<rparr>),
      (''b'', \<lparr>reg = [One (Lit (CHR ''b'')), AtEnd], cbs = [3]\<rparr>)]\<rparr>"

definition reading :: json where
  "reading = JObj [(''val'', JNum 21), (''ack'', JBool True)]"

text \<open>
  A connected client whose object mirror holds one document under the identifier
  \<^verbatim>\<open>a\<close>, with one callback subscribed to that identifier.
\<close>

definition doc :: jobject where
  "doc = [(''_id'', JStr ''a''), (''type'', JStr ''state''), (''_rev'', JStr ''1-x'')]"

definition mirrored :: connection where
  "mirrored = online\<lparr>
     objectsSubscribes := [(''a'', \<lparr>reg = [One (Lit (CHR ''a'')), AtEnd], cbs = [1]\<rparr>)],
     objects := Some [''a'' \<mapsto> doc]\<rparr>"

text \<open>
  A client that has not connected yet, the entry both registries build for the pattern
  \<^verbatim>\<open>a\<close>, and a session of the transport with three handshakes.
\<close>

definition offline :: connection where
  "offline = new_connection None None None None"

definition entry_a :: "callback list \<Rightarrow> sub_entry" where
  "entry_a l = \<lparr>reg = [One (Lit (CHR ''a'')), AtEnd], cbs = l\<rparr>"

definition session :: "lifecycle_event list" where
  "session = [PreConnect True False, Bootstrapped, Disconnect, Reconnect, PreConnect True False,
              Disconnect, PreConnect False False]"

text \<open>The heap of a caller: one object with the three properties and a nested one.\<close>

definition caller_heap :: heap where
  "caller_heap = [[(''_id'', JStr ''x''), (''from'', JStr ''system.adapter.admin.0''),
                   (''common'', JObj [(''name'', JStr ''n''), (''ts'', JNum 5)]),
                   (''ts'', JNum 1700), (''user'', JStr ''system.user.admin'')]]"

text \<open>
  A first plain call on the connected client, the connection after it, and a second call
  with the same options made right away.
\<close>

definition caller_first :: "connection \<times> effect list \<times> promise \<times> request_result" where
  "caller_first = request_async online plain_opts"

definition after_first :: connection where
  "after_first = fst caller_first"

definition caller_second :: "connection \<times> effect list \<times> promise \<times> request_result" where
  "caller_second = request_async after_first plain_opts"

text \<open>
  What happens before a later call: the promise of the first call is fulfilled, an
  unrelated call is made, the transport disconnects, and a state changes.
\<close>

definition busy_time :: "system_event list" where
  "busy_time = [OfCall 1 (Signal (Resolve None)), Call cmdExec_opts, OfTransport Disconnect,
                StateChange ''a.x'' (Some reading)]"

definition after_events :: connection where
  "after_events =
     fst (stateChange
       (fst (lifecycle_step
         (fst (request_async (fst (call_step after_first 1 (Signal (Resolve None)))) cmdExec_opts))
         Disconnect))
       ''a.x'' (Some reading))"

text \<open>
  Two calls with the same cache key and a required feature, made one after the other
  before the backend has answered the feature check; then the answer arrives (the promise
  of the feature check is number 1, after the first caller's own promise), and both calls
  resume.
\<close>

definition gated_first :: "connection \<times> effect list \<times> promise \<times> request_result" where
  "gated_first = request_async online feature_opts"

definition gated_second :: "connection \<times> effect list \<times> promise \<times> request_result" where
  "gated_second = request_async (fst gated_first) feature_opts"

definition gate_answered :: connection where
  "gate_answered = fst (signal (fst gated_second) 1 (Resolve (Some (JBool True))))"

definition gated_first_resumed :: "connection \<times> effect list \<times> request_result" where
  "gated_first_resumed = request_resume gate_answered feature_opts (Returned 1) []"

definition gated_second_resumed :: "connection \<times> effect list \<times> request_result" where
  "gated_second_resumed = request_resume (fst gated_first_resumed) feature_opts (Returned 1) []"

text \<open>
  A call with a timeout and a required feature: it is suspended, the feature check is
  answered, the call resumes and constructs its promise, and its timer expires.
\<close>

definition timed_feature_opts :: request_options where
  "timed_feature_opts = cmdExec_opts\<lparr>requireFeatures := [''F'']\<rparr>"

definition timed_gate_answered :: connection where
  "timed_gate_answered =
     fst (signal (fst (request online timed_feature_opts)) 0 (Resolve (Some (JBool True))))"

definition timed_resumed :: "connection \<times> effect list \<times> request_result" where
  "timed_resumed = request_resume timed_gate_answered timed_feature_opts (Returned 0) []"

definition gated_timed_out :: connection where
  "gated_timed_out = fst (timer_expired (fst timed_resumed) 1)"

section \<open>Properties of the pattern matcher\<close>

lemma replaceAll_concat_map:
  "replaceAll c r (concat (map f s)) = concat (map (\<lambda>x. replaceAll c r (f x)) s)"
  by (induction s) (simp_all add: replaceAll_def)

lemma replaceAll_as_map: "replaceAll c r s = concat (map (\<lambda>x. replaceAll c r [x]) s)"
  by (simp add: replaceAll_def)

lemma state_replacements_one_pass:
  "replaceAll (CHR ''['') [bslash, CHR ''['']
     (replaceAll (CHR ''+'') [bslash, CHR ''+'']
       (replaceAll (CHR '')'') [bslash, CHR '')'']
         (replaceAll (CHR ''('') [bslash, CHR ''('']
           (replaceAll (CHR ''*'') ''.*''
             (replaceAll (CHR ''.'') [bslash, CHR ''.''] pat)))))
   = concat (map escape_state pat)"
proof -
  have one: "replaceAll (CHR ''['') [bslash, CHR ''['']
     (replaceAll (CHR ''+'') [bslash, CHR ''+'']
       (replaceAll (CHR '')'') [bslash, CHR '')'']
         (replaceAll (CHR ''('') [bslash, CHR ''('']
           (replaceAll (CHR ''*'') ''.*''
             (replaceAll (CHR ''.'') [bslash, CHR ''.''] [x]))))) = escape_state x" for x
    by (simp add: replaceAll_def escape_state_def bslash_def)
  show ?thesis
    apply (subst replaceAll_as_map [of "CHR ''.''"])
    apply (simp only: replaceAll_concat_map one)
    done
qed

lemma object_replacements_one_pass:
  "replaceAll (CHR ''*'') ''.*'' (replaceAll (CHR ''.'') [bslash, CHR ''.''] pat)
   = concat (map escape_object pat)"
proof -
  have one: "replaceAll (CHR ''*'') ''.*'' (replaceAll (CHR ''.'') [bslash, CHR ''.''] [x])
      = escape_object x" for x
    by (simp add: replaceAll_def escape_object_def bslash_def)
  show ?thesis
    apply (subst replaceAll_as_map [of "CHR ''.''"])
    apply (simp only: replaceAll_concat_map one)
    done
qed

lemma star_in_escape_state: "CHR ''*'' \<in> set (escape_state c) \<longleftrightarrow> c = CHR ''*''"
  by (auto simp: escape_state_def bslash_def)

lemma star_in_escape_object: "CHR ''*'' \<in> set (escape_object c) \<longleftrightarrow> c = CHR ''*''"
  by (auto simp: escape_object_def bslash_def)

lemma compile_state_pattern_eq:
  "compile_state_pattern pat =
     concat (map escape_state pat) @ (if CHR ''*'' \<in> set pat then [] else ''$'')"
  unfolding compile_state_pattern_def state_replacements_one_pass Let_def
  by (auto simp: star_in_escape_state)

lemma compile_object_pattern_eq:
  "compile_object_pattern pat =
     concat (map escape_object pat) @ (if CHR ''*'' \<in> set pat then [] else ''$'')"
  unfolding compile_object_pattern_def object_replacements_one_pass Let_def
  by (auto simp: star_in_escape_object)

lemma parse_one_literal:
  assumes "\<not> is_special_char c" "c \<noteq> CHR ''$''" "c \<noteq> bslash" "c \<noteq> CHR ''.''"
    and "rest \<noteq> []" "hd rest \<noteq> CHR ''*''" "hd rest \<noteq> CHR ''+''"
  shows "parse_regexp (c # rest) = map_option (Cons (One (Lit c))) (parse_regexp rest)"
  using assms by (cases rest) simp_all

lemma parse_one_escaped:
  assumes "is_syntax_char c"
    and "rest \<noteq> []" "hd rest \<noteq> CHR ''*''" "hd rest \<noteq> CHR ''+''"
  shows "parse_regexp (bslash # c # rest) = map_option (Cons (One (Lit c))) (parse_regexp rest)"
  using assms by (cases rest) (simp_all add: bslash_def)

lemma parse_escaped_literals:
  assumes "list_all lit p"
    and esc: "\<And>c. lit c \<Longrightarrow> esc c = [c] \<and> \<not> is_special_char c \<and> c \<noteq> CHR ''$'' \<and> c \<noteq> bslash \<and> c \<noteq> CHR ''.''
                 \<or> esc c = [bslash, c] \<and> is_syntax_char c"
  shows "parse_regexp (concat (map esc p) @ ''$'') = Some (map (\<lambda>c. One (Lit c)) p @ [AtEnd])"
  using assms(1)
proof (induction p)
  case Nil
  show ?case by simp
next
  case (Cons c p)
  let ?rest = "concat (map esc p) @ ''$''"
  have lit: "lit c" and lits: "list_all lit p" using Cons.prems by simp_all
  have ne: "?rest \<noteq> []" by simp
  have hd_ok: "hd ?rest \<noteq> CHR ''*'' \<and> hd ?rest \<noteq> CHR ''+''"
  proof (cases p)
    case Nil
    then show ?thesis by simp
  next
    case (Cons d q)
    then have "lit d" using lits by simp
    from esc [OF this] show ?thesis
      by (auto simp: Cons bslash_def is_special_char_def)
  qed
  have IH: "parse_regexp ?rest = Some (map (\<lambda>c. One (Lit c)) p @ [AtEnd])"
    using Cons.IH lits by simp
  from esc [OF lit] show ?case
  proof
    assume a: "esc c = [c] \<and> \<not> is_special_char c \<and> c \<noteq> CHR ''$'' \<and> c \<noteq> bslash \<and> c \<noteq> CHR ''.''"
    then have "parse_regexp (c # ?rest) = map_option (Cons (One (Lit c))) (parse_regexp ?rest)"
      using parse_one_literal [OF _ _ _ _ ne] hd_ok by blast
    then show ?thesis using a IH by simp
  next
    assume a: "esc c = [bslash, c] \<and> is_syntax_char c"
    then have "parse_regexp (bslash # c # ?rest) = map_option (Cons (One (Lit c))) (parse_regexp ?rest)"
      using parse_one_escaped [OF _ ne] hd_ok by blast
    then show ?thesis using a IH by simp
  qed
qed

lemma match_here_literals:
  "match_here (map (\<lambda>c. One (Lit c)) p @ [AtEnd]) s \<longleftrightarrow> s = p"
proof (induction p arbitrary: s)
  case Nil
  show ?case by auto
next
  case (Cons c p)
  show ?case by (cases s) (auto simp: Cons.IH)
qed

lemma match_anywhere_suffix:
  "match_anywhere rs s \<longleftrightarrow> (\<exists>t. suffix t s \<and> match_here rs t)"
proof (induction s)
  case Nil
  show ?case by simp
next
  case (Cons c cs)
  show ?case by (auto simp: Cons.IH suffix_Cons)
qed

lemma state_literal_escape:
  "state_literal c \<Longrightarrow>
     escape_state c = [c] \<and> \<not> is_special_char c \<and> c \<noteq> CHR ''$'' \<and> c \<noteq> bslash \<and> c \<noteq> CHR ''.''
     \<or> escape_state c = [bslash, c] \<and> is_syntax_char c"
  by (auto simp: escape_state_def state_literal_def is_syntax_char_def is_special_char_def)

lemma object_literal_escape:
  "object_literal c \<Longrightarrow>
     escape_object c = [c] \<and> \<not> is_special_char c \<and> c \<noteq> CHR ''$'' \<and> c \<noteq> bslash \<and> c \<noteq> CHR ''.''
     \<or> escape_object c = [bslash, c] \<and> is_syntax_char c"
  by (auto simp: escape_object_def object_literal_def state_literal_def is_syntax_char_def is_special_char_def)

lemma literal_no_star: "list_all state_literal p \<Longrightarrow> CHR ''*'' \<notin> set p"
  by (auto simp: list_all_iff state_literal_def)

text \<open>
  Claim C3, as the code has it. A pattern without a star is compiled to an expression
  that is anchored at the end only. So for every pattern made of characters that keep
  their literal meaning (for the state registry every character but
  \<^verbatim>\<open>* ? { } ] ^ $ |\<close> and the backslash; for the object registry \<^verbatim>\<open>( ) + [\<close> are
  excluded as well) and every identifier, the compiled matcher accepts the identifier if
  and only if the identifier ends with the pattern, compared character by character with
  no change of case. An identifier equal to the pattern is accepted, and so is every
  longer identifier that ends with it; no other identifier is.
\<close>

theorem literal_pattern_accepts_suffixes:
  "(list_all state_literal p \<longrightarrow>
      regexp_test (compile_state_pattern p) s = Some (suffix p s)) \<and>
   (list_all object_literal p \<longrightarrow>
      regexp_test (compile_object_pattern p) s = Some (suffix p s))"
proof (intro conjI impI)
  assume lit: "list_all state_literal p"
  have "parse_regexp (compile_state_pattern p) = Some (map (\<lambda>c. One (Lit c)) p @ [AtEnd])"
    using parse_escaped_literals [of state_literal p escape_state, OF lit state_literal_escape]
    by (simp add: compile_state_pattern_eq literal_no_star [OF lit])
  then show "regexp_test (compile_state_pattern p) s = Some (suffix p s)"
    by (simp add: regexp_test_def match_anywhere_suffix match_here_literals)
next
  assume lit: "list_all object_literal p"
  then have slit: "list_all state_literal p"
    by (simp add: list_all_iff object_literal_def)
  have "parse_regexp (compile_object_pattern p) = Some (map (\<lambda>c. One (Lit c)) p @ [AtEnd])"
    using parse_escaped_literals [of object_literal p escape_object, OF lit object_literal_escape]
    by (simp add: compile_object_pattern_eq literal_no_star [OF slit])
  then show "regexp_test (compile_object_pattern p) s = Some (suffix p s)"
    by (simp add: regexp_test_def match_anywhere_suffix match_here_literals)
qed

theorem literal_pattern_accepts_suffixes_witness:
  "list_all state_literal ''a.b'' \<and> list_all object_literal ''a.b'' \<and>
   regexp_test (compile_state_pattern ''a.b'') ''xa.b'' = Some (suffix ''a.b'' ''xa.b'') \<and>
   regexp_test (compile_object_pattern ''a.b'') ''a.bc'' = Some (suffix ''a.b'' ''a.bc'')"
proof -
  have a: "list_all state_literal ''a.b''" by (simp add: state_literal_def bslash_def)
  have b: "list_all object_literal ''a.b''" by (simp add: object_literal_def state_literal_def bslash_def)
  show ?thesis
    using a b literal_pattern_accepts_suffixes [of "''a.b''" "''xa.b''"]
      literal_pattern_accepts_suffixes [of "''a.b''" "''a.bc''"]
    by blast
qed

text \<open>
  Claim C3 as the specification states it (acceptance if and only if the identifier equals
  the pattern) fails: the matcher of the pattern \<^verbatim>\<open>a.b\<close> accepts \<^verbatim>\<open>xa.b\<close>.
\<close>

theorem exact_match_counterexample:
  "regexp_test (compile_state_pattern ''a.b'') ''xa.b'' = Some True \<and> ''xa.b'' \<noteq> ''a.b''"
  by (simp add: regexp_test_def compile_state_pattern_def replaceAll_def bslash_def
      is_syntax_char_def is_special_char_def)

text \<open>
  Claim C2 on the object registry. \<^verbatim>\<open>subscribeState\<close> escapes the plus sign,
  \<^verbatim>\<open>subscribeObject\<close> does not: for the pattern \<^verbatim>\<open>a+b\<close> it builds the expression
  \<^verbatim>\<open>a+b$\<close>, in which the plus sign is a quantifier, so that the matcher accepts \<^verbatim>\<open>aab\<close>
  and rejects \<^verbatim>\<open>a+b\<close> itself. The state registry builds the expression with the escaped
  plus sign and accepts \<^verbatim>\<open>a+b\<close>.
\<close>

theorem subscribeObject_plus_not_escaped:
  "compile_object_pattern ''a+b'' = ''a+b$'' \<and>
   compile_state_pattern ''a+b'' = [CHR ''a'', bslash, CHR ''+'', CHR ''b'', CHR ''$''] \<and>
   regexp_test (compile_object_pattern ''a+b'') ''aab'' = Some True \<and>
   regexp_test (compile_object_pattern ''a+b'') ''a+b'' = Some False \<and>
   regexp_test (compile_state_pattern ''a+b'') ''a+b'' = Some True \<and>
   regexp_test (compile_state_pattern ''a+b'') ''aab'' = Some False"
  by (simp add: regexp_test_def compile_state_pattern_def compile_object_pattern_def
      replaceAll_def bslash_def is_syntax_char_def is_special_char_def Let_def)

section \<open>Properties of the request coordinator\<close>

subsection \<open>What a call changes\<close>

lemma only_calls_differ_refl: "only_calls_differ st st"
  by (simp add: only_calls_differ_def)

lemma only_calls_differ_trans:
  "only_calls_differ a b \<Longrightarrow> only_calls_differ b c \<Longrightarrow> only_calls_differ a c"
  unfolding only_calls_differ_def by (cases a, cases b, cases c) simp

lemma only_calls_differ_fields:
  assumes "only_calls_differ st st'"
  shows "promises st' = promises st" "next_promise st' = next_promise st"
    "connected st' = connected st" "window_socketUrl st' = window_socketUrl st"
    "cmdTimeout st' = cmdTimeout st"
  using assms unfolding only_calls_differ_def by (cases st, cases st', simp)+

lemma update_call_differs: "only_calls_differ st (update_call st p f)"
  by (simp add: update_call_def only_calls_differ_def split: option.splits)

lemma update_call_differs_after:
  "only_calls_differ st st' \<Longrightarrow> only_calls_differ st (update_call st' p f)"
  by (rule only_calls_differ_trans [OF _ update_call_differs])

lemma signal_differs: "only_calls_differ st (fst (signal st p a))"
  by (cases a) (simp_all add: update_call_differs only_calls_differ_refl)

lemma run_executor_differs: "only_calls_differ st (fst (run_executor st p as))"
proof (induction as arbitrary: st)
  case Nil
  show ?case by (simp add: only_calls_differ_refl)
next
  case (Cons a as)
  obtain st1 es1 where s: "signal st p a = (st1, es1)" by (cases "signal st p a")
  then have d1: "only_calls_differ st st1" using signal_differs [of st p a] by simp
  obtain st2 es2 where r: "run_executor st1 p as = (st2, es2)" by (cases "run_executor st1 p as")
  then have "only_calls_differ st1 st2" using Cons.IH [of st1] by simp
  with d1 have "only_calls_differ st st2" by (rule only_calls_differ_trans)
  with d1 s r show ?case by (cases a) simp_all
qed

lemma timer_expired_differs: "only_calls_differ st (fst (timer_expired st p))"
  by (simp add: timer_expired_def only_calls_differ_def split: option.splits timer.splits)

lemma cmdExec_ack_differs: "only_calls_differ st (fst (cmdExec_ack st p err))"
  by (auto simp: cmdExec_ack_def Let_def only_calls_differ_refl split: option.splits
      intro!: update_call_differs_after)

lemma call_step_differs: "only_calls_differ st (fst (call_step st p ev))"
  by (cases ev) (simp_all add: timer_expired_differs signal_differs cmdExec_ack_differs)

lemma run_call_events_differs: "only_calls_differ st (fst (run_call_events st p evs))"
proof (induction evs arbitrary: st)
  case Nil
  show ?case by (simp add: only_calls_differ_refl)
next
  case (Cons ev evs)
  obtain st1 es1 where s: "call_step st p ev = (st1, es1)" by (cases "call_step st p ev")
  then have d1: "only_calls_differ st st1" using call_step_differs [of st p ev] by simp
  obtain st2 es2 where r: "run_call_events st1 p evs = (st2, es2)"
    by (cases "run_call_events st1 p evs")
  then have "only_calls_differ st1 st2" using Cons.IH [of st1] by simp
  with d1 have "only_calls_differ st st2" by (rule only_calls_differ_trans)
  with s r show ?case by simp
qed

lemma construct_result:
  assumes c: "construct st opts = (st', es, r)"
  shows "r = Returned (next_promise st) \<and>
     next_promise st' = Suc (next_promise st) \<and>
     connected st' = connected st \<and> window_socketUrl st' = window_socketUrl st \<and>
     promises st' = (case cacheKey opts of
                       None \<Rightarrow> promises st
                     | Some k \<Rightarrow> if k \<noteq> [] then (promises st)(k \<mapsto> next_promise st)
                                 else promises st)"
proof -
  define st1 where "st1 = st\<lparr>calls := (calls st)(next_promise st \<mapsto>
      \<lparr>outcome = Pending, elapsed = False,
       timer = (case commandTimeout opts of Disabled \<Rightarrow> NoTimer | Millis n \<Rightarrow> Armed n
                | Default \<Rightarrow> Armed (cmdTimeout st))\<rparr>), next_promise := Suc (next_promise st)\<rparr>"
  obtain st2 es2 where r: "run_executor st1 (next_promise st) (executor opts) = (st2, es2)"
    by (cases "run_executor st1 (next_promise st) (executor opts)")
  have "only_calls_differ st1 st2"
    using run_executor_differs [of st1 "next_promise st" "executor opts"] r by simp
  note f = only_calls_differ_fields [OF this]
  have f2: "promises st2 = promises st" "next_promise st2 = Suc (next_promise st)"
    "connected st2 = connected st" "window_socketUrl st2 = window_socketUrl st"
    by (simp_all add: f st1_def)
  have res: "construct st opts =
      (case cacheKey opts of
         None \<Rightarrow> (st2, es2, Returned (next_promise st))
       | Some k \<Rightarrow>
           if k \<noteq> [] then (st2\<lparr>promises := (promises st2)(k \<mapsto> next_promise st)\<rparr>, es2,
                            Returned (next_promise st))
           else (st2, es2, Returned (next_promise st)))"
    using r unfolding construct_def Let_def st1_def [symmetric] by simp
  show ?thesis
  proof (cases "cacheKey opts")
    case None
    with res c have "st' = st2" "r = Returned (next_promise st)" by simp_all
    with None f2 show ?thesis by simp
  next
    case (Some k)
    show ?thesis
    proof (cases "k = []")
      case True
      with Some res c have "st' = st2" "r = Returned (next_promise st)" by simp_all
      with Some True f2 show ?thesis by simp
    next
      case False
      with Some res c
      have "st' = st2\<lparr>promises := (promises st2)(k \<mapsto> next_promise st)\<rparr>"
        "r = Returned (next_promise st)" by simp_all
      with Some False f2 show ?thesis by simp
    qed
  qed
qed

subsection \<open>The gates\<close>

lemma request_admin_gate:
  "requireAdmin opts \<and> isWeb st \<Longrightarrow> request st opts = (st, [], Failed ERRORS_NOT_ADMIN)"
  by (subst request.simps) simp

lemma request_cache_hit:
  "\<not> (requireAdmin opts \<and> isWeb st) \<Longrightarrow> cached st opts = Some p \<Longrightarrow>
   request st opts = (st, [], Returned p)"
  by (subst request.simps) simp

lemma request_not_connected:
  "\<not> (requireAdmin opts \<and> isWeb st) \<Longrightarrow> cached st opts = None \<Longrightarrow> \<not> connected st \<Longrightarrow>
   request st opts = (st, [], Failed ERRORS_NOT_CONNECTED)"
  by (subst request.simps) auto

lemma request_past_gates:
  assumes "\<not> (requireAdmin opts \<and> isWeb st)" "cached st opts = None" "connected st"
  shows "request st opts =
     (case requireFeatures opts of
        [] \<Rightarrow> construct st opts
      | f # fs \<Rightarrow>
          (case request st (checkFeatureSupported_options f) of
             (st1, es, r) \<Rightarrow> (st1, es, Suspended r fs)))"
  using assms by (subst request.simps) auto

lemma request_Returned:
  assumes "request st opts = (st', es, Returned p)"
  shows "cached st opts = Some p \<and> st' = st \<and> es = [] \<or>
         cached st opts = None \<and> construct st opts = (st', es, Returned p)"
  using assms
  by (subst (asm) request.simps) (auto split: if_splits option.splits list.splits prod.splits)

lemma request_resume_Returned:
  assumes "request_resume st opts aw fs = (st', es, Returned p)"
  shows "construct st opts = (st', es, Returned p)"
  using assms unfolding request_resume_def
  by (auto split: outcome.splits if_splits list.splits prod.splits)

lemma request_stores_key:
  assumes "request st opts = (st', es, Returned p)" "cacheKey opts = Some k" "k \<noteq> []"
  shows "promises st' k = Some p"
proof -
  from request_Returned [OF assms(1)] show ?thesis
  proof
    assume "cached st opts = Some p \<and> st' = st \<and> es = []"
    then show ?thesis using assms(2,3) by (auto simp: cached_def split: if_splits)
  next
    assume "cached st opts = None \<and> construct st opts = (st', es, Returned p)"
    then have "construct st opts = (st', es, Returned p)" ..
    from construct_result [OF this] show ?thesis using assms(2,3) by simp
  qed
qed

lemmas eval_request = request.simps cached_def isWeb_def checkFeatureSupported_options_def
  construct_def Let_def new_connection_def update_call_def settle_def clear_timer_def
  request_resume_def

text \<open>
  Claim C8. The gates of \<^verbatim>\<open>request\<close> come in this order. A request that requires the
  admin adapter fails in web mode with \<^verbatim>\<open>NOT_ADMIN\<close>, whatever the cache holds and
  whether or not the client is connected; the connection is left as it was and nothing is
  emitted. Otherwise a cache hit (a truthy key, no forced update, an entry under the key)
  returns the cached promise, connected or not. Otherwise a client that is not connected
  fails with \<^verbatim>\<open>NOT_CONNECTED\<close>, again with no change and no traffic.
\<close>

theorem request_gates_in_order:
  "(requireAdmin opts \<and> isWeb st \<longrightarrow> request st opts = (st, [], Failed ERRORS_NOT_ADMIN)) \<and>
   (\<not> (requireAdmin opts \<and> isWeb st) \<and> cached st opts = Some p \<longrightarrow>
      request st opts = (st, [], Returned p)) \<and>
   (\<not> (requireAdmin opts \<and> isWeb st) \<and> cached st opts = None \<and> \<not> connected st \<longrightarrow>
      request st opts = (st, [], Failed ERRORS_NOT_CONNECTED))"
  using request_admin_gate request_cache_hit request_not_connected by blast

theorem request_gates_in_order_witness:
  "request web_page admin_opts = (web_page, [], Failed ERRORS_NOT_ADMIN) \<and>
   request web_page plain_opts = (web_page, [], Returned 7) \<and>
   request web_page forced_opts = (web_page, [], Failed ERRORS_NOT_CONNECTED)"
proof -
  have a: "requireAdmin admin_opts \<and> isWeb web_page"
    by (simp add: admin_opts_def plain_opts_def web_page_def isWeb_def new_connection_def)
  have b: "\<not> (requireAdmin plain_opts \<and> isWeb web_page) \<and> cached web_page plain_opts = Some 7"
    by (simp add: plain_opts_def web_page_def cached_def new_connection_def)
  have c: "\<not> (requireAdmin forced_opts \<and> isWeb web_page) \<and> cached web_page forced_opts = None \<and>
      \<not> connected web_page"
    by (simp add: forced_opts_def plain_opts_def web_page_def cached_def new_connection_def)
  show ?thesis
    using a b c request_gates_in_order [where opts = admin_opts and st = web_page]
      request_gates_in_order [where opts = plain_opts and st = web_page and p = 7]
      request_gates_in_order [where opts = forced_opts and st = web_page]
    by blast
qed

subsection \<open>The cache\<close>

lemma construct_keeps_entry:
  assumes "promises st k = Some p" "cacheKey opts \<noteq> Some k \<or> k = []"
  shows "keeps_entry k p st (fst (construct st opts))"
proof -
  obtain st' es r where c: "construct st opts = (st', es, r)" by (cases "construct st opts")
  from construct_result [OF c] assms show ?thesis
    by (auto simp: keeps_entry_def c split: option.splits if_splits)
qed

lemma request_keeps_entry:
  assumes "promises st k = Some p" "\<not> (cacheKey opts = Some k \<and> forceUpdate opts)"
  shows "keeps_entry k p st (fst (request st opts))"
  using assms
proof (induction st opts rule: request.induct)
  case (1 st opts)
  show ?case
  proof (cases "requireAdmin opts \<and> isWeb st")
    case True
    then show ?thesis using "1.prems" by (subst request.simps) (simp add: keeps_entry_def)
  next
    case gate: False
    show ?thesis
    proof (cases "cached st opts")
      case (Some q)
      then show ?thesis using gate "1.prems"
        by (subst request.simps) (simp add: keeps_entry_def)
    next
      case None
      show ?thesis
      proof (cases "connected st")
        case False
        then show ?thesis using gate None "1.prems"
          by (subst request.simps) (simp add: keeps_entry_def)
      next
        case True
        show ?thesis
        proof (cases "requireFeatures opts")
          case Nil
          have "cacheKey opts \<noteq> Some k \<or> k = []"
            using None "1.prems" by (auto simp: cached_def split: option.splits if_splits)
          from construct_keeps_entry [OF "1.prems"(1) this]
          show ?thesis using Nil by (simp add: request_past_gates [OF gate None True])
        next
          case (Cons f fs)
          have n: "\<not> (cacheKey (checkFeatureSupported_options f) = Some k \<and>
                     forceUpdate (checkFeatureSupported_options f))"
            by (simp add: checkFeatureSupported_options_def)
          have "keeps_entry k p st (fst (request st (checkFeatureSupported_options f)))"
            using "1.IH" [OF gate None _ Cons "1.prems"(1) n] True by simp
          then show ?thesis using Cons
            by (auto simp: request_past_gates [OF gate None True] split: prod.splits)
        qed
      qed
    qed
  qed
qed

lemma keeps_entry_refl: "promises st k = Some p \<Longrightarrow> keeps_entry k p st st"
  by (simp add: keeps_entry_def)

lemma keeps_entry_trans:
  "keeps_entry k p a b \<Longrightarrow> keeps_entry k p b c \<Longrightarrow> keeps_entry k p a c"
  by (simp add: keeps_entry_def)

lemma keeps_entry_calls:
  "promises st k = Some p \<Longrightarrow> only_calls_differ st st' \<Longrightarrow> keeps_entry k p st st'"
  using only_calls_differ_fields [of st st'] by (simp add: keeps_entry_def)

lemma request_async_keeps_entry:
  assumes "promises st k = Some p" "\<not> (cacheKey opts = Some k \<and> forceUpdate opts)"
  shows "keeps_entry k p st (fst (request_async st opts))"
proof -
  let ?st0 = "st\<lparr>next_promise := Suc (next_promise st)\<rparr>"
  have "keeps_entry k p ?st0 (fst (request ?st0 opts))"
    using assms by (intro request_keeps_entry) simp_all
  then show ?thesis
    by (auto simp: request_async_def Let_def keeps_entry_def split: prod.splits)
qed

lemma request_resume_keeps_entry:
  assumes "promises st k = Some p" "cacheKey opts \<noteq> Some k"
  shows "keeps_entry k p st (fst (request_resume st opts awaited fs))"
proof (cases "result_outcome st awaited")
  case Pending
  then show ?thesis using assms by (simp add: request_resume_def keeps_entry_def)
next
  case (Rejected e)
  then show ?thesis using assms by (simp add: request_resume_def keeps_entry_def)
next
  case (Fulfilled v)
  show ?thesis
  proof (cases "truthy v")
    case False
    with Fulfilled show ?thesis using assms by (simp add: request_resume_def keeps_entry_def)
  next
    case True
    show ?thesis
    proof (cases fs)
      case Nil
      have "keeps_entry k p st (fst (construct st opts))"
        using assms by (intro construct_keeps_entry) simp_all
      with Fulfilled True Nil show ?thesis by (simp add: request_resume_def)
    next
      case (Cons f fs')
      have "keeps_entry k p st (fst (request st (checkFeatureSupported_options f)))"
        using assms(1)
        by (intro request_keeps_entry) (simp_all add: checkFeatureSupported_options_def)
      with Fulfilled True Cons show ?thesis
        by (auto simp: request_resume_def split: prod.splits)
    qed
  qed
qed

lemma subscribe_all_keeps_entry:
  "promises st k = Some p \<Longrightarrow> keeps_entry k p st (fst (subscribe_all st b))"
  by (simp add: subscribe_all_def keeps_entry_def)

lemma lifecycle_step_keeps_entry:
  assumes "promises st k = Some p"
  shows "keeps_entry k p st (fst (lifecycle_step st ev))"
proof (cases ev)
  case (PreConnect isOk sec)
  let ?st1 = "st\<lparr>authTimer := False, connected := True, isSecure := Some sec\<rparr>"
  have "keeps_entry k p ?st1 (fst (subscribe_all ?st1 True))"
    using assms by (intro subscribe_all_keeps_entry) simp
  then show ?thesis using PreConnect assms
    by (auto simp: onPreConnect_def Let_def keeps_entry_def split: prod.splits)
next
  case Reconnect
  let ?st1 = "st\<lparr>connected := True\<rparr>"
  have "keeps_entry k p ?st1 (fst (subscribe_all ?st1 True))"
    using assms by (intro subscribe_all_keeps_entry) simp
  then show ?thesis using Reconnect assms
    by (auto simp: on_reconnect_def Let_def keeps_entry_def split: prod.splits)
next
  case Disconnect
  then show ?thesis using assms by (simp add: on_disconnect_def keeps_entry_def)
next
  case Bootstrapped
  then show ?thesis using assms by (simp add: bootstrap_loaded_def keeps_entry_def)
qed

lemma registered_then_fetch:
  assumes "promises s k = Some p" "next_promise s = next_promise st"
  shows "keeps_entry k p st (fst (request s (getBinaryState_options ident)))"
proof -
  have "keeps_entry k p s (fst (request s (getBinaryState_options ident)))"
    using assms(1) by (intro request_keeps_entry) (simp_all add: getBinaryState_options_def)
  with assms(2) show ?thesis by (simp add: keeps_entry_def)
qed

lemma subscribeState_keeps_entry:
  assumes "promises st k = Some p" "subscribeState st ident binary cb = Some (st', es)"
  shows "keeps_entry k p st st'"
proof -
  obtain st1 es1 where reg: "(case map_of (statesSubscribes st) ident of
           None \<Rightarrow>
             (case parse_regexp (compile_state_pattern ident) of
                None \<Rightarrow> None
              | Some r \<Rightarrow>
                  Some (st\<lparr>statesSubscribes :=
                             statesSubscribes st @ [(ident, \<lparr>reg = r, cbs = [cb]\<rparr>)]\<rparr>,
                        if connected st then [Emit ''subscribe'' [JStr ident]] else []))
         | Some e \<Rightarrow>
             Some (if cb \<in> set (cbs e) then st
                   else st\<lparr>statesSubscribes :=
                             reg_update (statesSubscribes st) ident (e\<lparr>cbs := cbs e @ [cb]\<rparr>)\<rparr>,
                   [])) = Some (st1, es1)"
    using assms(2) unfolding subscribeState_def Let_def
    by (auto split: option.splits)
  then have f: "promises st1 k = Some p" "next_promise st1 = next_promise st"
    using assms(1) by (auto split: option.splits if_splits)
  have "st' = st1 \<or> st' = fst (request st1 (getBinaryState_options ident))"
    using assms(2) reg unfolding subscribeState_def Let_def
    by (auto split: if_splits prod.splits)
  then show ?thesis
  proof
    assume "st' = st1"
    with f show ?thesis by (simp add: keeps_entry_def)
  next
    assume "st' = fst (request st1 (getBinaryState_options ident))"
    with registered_then_fetch [OF f] show ?thesis by simp
  qed
qed

lemma system_step_keeps_entry:
  assumes "promises st k = Some p" "\<not> replaces_key k ev" "system_step st ev = Some st'"
  shows "keeps_entry k p st st'"
proof (cases ev)
  case (Call opts)
  with assms request_async_keeps_entry [of st k p opts] show ?thesis by auto
next
  case (Resume opts awaited fs)
  with assms request_resume_keeps_entry [of st k p opts awaited fs] show ?thesis by auto
next
  case (OfCall q cev)
  with assms keeps_entry_calls [OF assms(1) call_step_differs [of st q cev]] show ?thesis by auto
next
  case (OfTransport lev)
  with assms lifecycle_step_keeps_entry [OF assms(1), of lev] show ?thesis by auto
next
  case (SubscribeState ident binary cb)
  with assms obtain es where "subscribeState st ident binary cb = Some (st', es)" by auto
  from subscribeState_keeps_entry [OF assms(1) this] show ?thesis .
next
  case (UnsubscribeState ident cb)
  with assms show ?thesis
    by (auto simp: unsubscribeState_def Let_def keeps_entry_def split: option.splits)
next
  case (SubscribeObject ident cb)
  with assms show ?thesis
    by (auto simp: subscribeObject_def keeps_entry_def split: option.splits if_splits)
next
  case (UnsubscribeObject ident cb)
  with assms show ?thesis
    by (auto simp: unsubscribeObject_def Let_def keeps_entry_def split: option.splits)
next
  case (ObjectChange ident obj)
  with assms show ?thesis
    by (auto simp: objectChange_def Let_def keeps_entry_def
        split: option.splits if_splits prod.splits)
next
  case (StateChange ident state)
  with assms show ?thesis by (auto simp: stateChange_def keeps_entry_def)
qed

lemma system_run_keeps_entry:
  assumes "promises st k = Some p" "list_all (\<lambda>ev. \<not> replaces_key k ev) evs"
    "system_run st evs = Some st'"
  shows "keeps_entry k p st st'"
  using assms
proof (induction evs arbitrary: st)
  case Nil
  then show ?case by (simp add: keeps_entry_def)
next
  case (Cons ev evs)
  from Cons.prems obtain st1 where s: "system_step st ev = Some st1"
    and r: "system_run st1 evs = Some st'"
    by (auto split: option.splits)
  have 1: "keeps_entry k p st st1"
    using system_step_keeps_entry [OF Cons.prems(1) _ s] Cons.prems(2) by simp
  then have "promises st1 k = Some p" by (simp add: keeps_entry_def)
  from Cons.IH [OF this _ r] Cons.prems(2) have "keeps_entry k p st1 st'" by simp
  with 1 show ?case by (rule keeps_entry_trans)
qed

lemma request_async_cache_hit:
  assumes "cacheKey opts = Some k \<and> k \<noteq> [] \<and> \<not> forceUpdate opts \<and>
    \<not> (requireAdmin opts \<and> isWeb st) \<and> promises st k = Some p"
  shows "request_async st opts =
           (st\<lparr>next_promise := Suc (next_promise st)\<rparr>, [], next_promise st, Returned p)"
proof -
  let ?st0 = "st\<lparr>next_promise := Suc (next_promise st)\<rparr>"
  from assms have "cached ?st0 opts = Some p" "\<not> (requireAdmin opts \<and> isWeb ?st0)"
    by (simp_all add: cached_def isWeb_def)
  then have "request ?st0 opts = (?st0, [], Returned p)" using request_cache_hit by blast
  then show ?thesis by (simp add: request_async_def Let_def)
qed

lemma construct_next_promise:
  "next_promise (fst (construct st opts)) = Suc (next_promise st)"
proof -
  obtain st' es r where c: "construct st opts = (st', es, r)" by (cases "construct st opts")
  from construct_result [OF c] show ?thesis by (simp add: c)
qed

lemma request_next_promise: "next_promise st \<le> next_promise (fst (request st opts))"
proof (induction st opts rule: request.induct)
  case (1 st opts)
  show ?case
  proof (cases "\<not> (requireAdmin opts \<and> isWeb st) \<and> cached st opts = None \<and> connected st")
    case False
    then show ?thesis by (subst request.simps) (auto split: option.splits)
  next
    case True
    then have g: "\<not> (requireAdmin opts \<and> isWeb st)" "cached st opts = None" "connected st"
      by simp_all
    show ?thesis
    proof (cases "requireFeatures opts")
      case Nil
      then show ?thesis by (simp add: request_past_gates [OF g] construct_next_promise)
    next
      case (Cons f fs)
      have "next_promise st \<le> next_promise (fst (request st (checkFeatureSupported_options f)))"
        using "1.IH" [OF g(1,2) _ Cons] g(3) by simp
      then show ?thesis using Cons
        by (auto simp: request_past_gates [OF g] split: prod.splits)
    qed
  qed
qed

lemma request_async_own_promise:
  assumes "request_async st opts = (st', es, w, r)"
  shows "w = next_promise st \<and> w < next_promise st'"
proof -
  let ?st0 = "st\<lparr>next_promise := Suc (next_promise st)\<rparr>"
  have "next_promise ?st0 \<le> next_promise (fst (request ?st0 opts))"
    by (rule request_next_promise)
  with assms show ?thesis
    by (auto simp: request_async_def Let_def split: prod.splits)
qed

lemma stored_after_return:
  assumes "cacheKey opts = Some k \<and> k \<noteq> [] \<and>
    (request_async st opts = (st', es, w, Returned p) \<or>
     request_resume st opts awaited fs = (st', es, Returned p))"
  shows "promises st' k = Some p"
proof -
  from assms have k: "cacheKey opts = Some k" "k \<noteq> []" by simp_all
  from assms have "request_async st opts = (st', es, w, Returned p) \<or>
     request_resume st opts awaited fs = (st', es, Returned p)" by simp
  then show ?thesis
  proof
    assume "request_async st opts = (st', es, w, Returned p)"
    then have "request (st\<lparr>next_promise := Suc (next_promise st)\<rparr>) opts = (st', es, Returned p)"
      by (auto simp: request_async_def Let_def split: prod.splits)
    from request_stores_key [OF this k] show ?thesis .
  next
    assume "request_resume st opts awaited fs = (st', es, Returned p)"
    from construct_result [OF request_resume_Returned [OF this]] k show ?thesis by simp
  qed
qed

lemma later_call_follows_entry:
  assumes a: "cacheKey optsA = Some k \<and> k \<noteq> [] \<and>
    (request_async st optsA = (stA, esA, wA, Returned pA) \<or>
     request_resume st optsA awaited fs = (stA, esA, Returned pA)) \<and>
    system_run stA evs = Some stB \<and> list_all (\<lambda>ev. \<not> replaces_key k ev) evs \<and>
    cacheKey optsB = Some k \<and> \<not> forceUpdate optsB \<and> \<not> (requireAdmin optsB \<and> isWeb stB)"
  shows "request_async stB optsB =
           (stB\<lparr>next_promise := Suc (next_promise stB)\<rparr>, [], next_promise stB, Returned pA)"
proof -
  have "promises stA k = Some pA"
    using a stored_after_return [of optsA k st stA esA wA pA awaited fs] by blast
  from system_run_keeps_entry [OF this, of evs stB] a have "promises stB k = Some pA"
    by (simp add: keeps_entry_def)
  with a show ?thesis by (intro request_async_cache_hit [where k = k]) simp
qed

lemma later_call_other_promise:
  assumes a: "cacheKey optsA = Some k \<and> k \<noteq> [] \<and>
    request_async st optsA = (stA, esA, wA, Returned pA) \<and>
    system_run stA evs = Some stB \<and> list_all (\<lambda>ev. \<not> replaces_key k ev) evs"
  shows "wA < next_promise stB"
proof -
  have "promises stA k = Some pA"
    using a stored_after_return [of optsA k st stA esA wA pA] by blast
  from system_run_keeps_entry [OF this, of evs stB] a
  have "next_promise stA \<le> next_promise stB"
    by (simp add: keeps_entry_def)
  moreover have "wA < next_promise stA" using a request_async_own_promise by blast
  ultimately show ?thesis by simp
qed

lemma forced_call_replaces_entry:
  assumes a: "cacheKey opts = Some k \<and> k \<noteq> [] \<and> forceUpdate opts \<and>
    (request_async st opts = (st', es, w, Returned p') \<or>
     request_resume st opts awaited fs = (st', es, Returned p'))"
  shows "cached st opts = None \<and> next_promise st \<le> p' \<and> p' < next_promise st' \<and>
         promises st' k = Some p'"
proof -
  from a have none: "cached st opts = None" by (simp add: cached_def)
  have stored: "promises st' k = Some p'"
    using a stored_after_return [of opts k st st' es w p' awaited fs] by blast
  from a have "request_async st opts = (st', es, w, Returned p') \<or>
     request_resume st opts awaited fs = (st', es, Returned p')" by simp
  then have "next_promise st \<le> p' \<and> p' < next_promise st'"
  proof
    assume "request_async st opts = (st', es, w, Returned p')"
    then have r: "request (st\<lparr>next_promise := Suc (next_promise st)\<rparr>) opts = (st', es, Returned p')"
      by (auto simp: request_async_def Let_def split: prod.splits)
    have "cached (st\<lparr>next_promise := Suc (next_promise st)\<rparr>) opts = None"
      using a by (simp add: cached_def)
    with request_Returned [OF r]
    have "construct (st\<lparr>next_promise := Suc (next_promise st)\<rparr>) opts = (st', es, Returned p')"
      by simp
    from construct_result [OF this] show ?thesis by simp
  next
    assume "request_resume st opts awaited fs = (st', es, Returned p')"
    from construct_result [OF request_resume_Returned [OF this]] show ?thesis by simp
  qed
  with none stored show ?thesis by simp
qed

text \<open>
  Claim C1, as the code has it. (1) A call with a non-empty cache key and no forced update
  that passes the admin gate follows the promise stored under the key: the caller gets a
  new promise of its own that settles as the stored one, pending or not, and the
  connection is not touched otherwise. (2) Once a call with that key has returned the
  stored promise or has constructed and stored its own, at once or on its resumption
  after the feature checks, every later call with the key and no forced update follows
  that same stored promise, whatever happens in between (calls with other keys or
  without a forced update, events of any call, events of the transport, subscriptions,
  notifications; every step the operations above have a value for), as long as no call
  with a forced update and no resumed call stores a promise under the key. (3) The promise handed to the later caller is never the one
  handed to the earlier caller. (4) A call with a forced update never reads the cache;
  when it constructs its promise, at once or on its resumption, the promise is a new one
  and is the entry under the key afterwards.
\<close>

theorem cached_outcome_shared_and_replaced:
  "(cacheKey opts = Some k \<and> k \<noteq> [] \<and> \<not> forceUpdate opts \<and>
    \<not> (requireAdmin opts \<and> isWeb st) \<and> promises st k = Some p
      \<longrightarrow> request_async st opts =
            (st\<lparr>next_promise := Suc (next_promise st)\<rparr>, [], next_promise st, Returned p)) \<and>
   (cacheKey optsA = Some k \<and> k \<noteq> [] \<and>
    (request_async st optsA = (stA, esA, wA, Returned pA) \<or>
     request_resume st optsA awaited fs = (stA, esA, Returned pA)) \<and>
    system_run stA evs = Some stB \<and> list_all (\<lambda>ev. \<not> replaces_key k ev) evs \<and>
    cacheKey optsB = Some k \<and> \<not> forceUpdate optsB \<and> \<not> (requireAdmin optsB \<and> isWeb stB)
      \<longrightarrow> request_async stB optsB =
            (stB\<lparr>next_promise := Suc (next_promise stB)\<rparr>, [], next_promise stB, Returned pA)) \<and>
   (cacheKey optsA = Some k \<and> k \<noteq> [] \<and>
    request_async st optsA = (stA, esA, wA, Returned pA) \<and>
    system_run stA evs = Some stB \<and> list_all (\<lambda>ev. \<not> replaces_key k ev) evs
      \<longrightarrow> wA < next_promise stB) \<and>
   (cacheKey opts = Some k \<and> k \<noteq> [] \<and> forceUpdate opts \<and>
    (request_async st opts = (st', es, w, Returned p') \<or>
     request_resume st opts awaited fs = (st', es, Returned p'))
      \<longrightarrow> cached st opts = None \<and> next_promise st \<le> p' \<and> p' < next_promise st' \<and>
          promises st' k = Some p')"
proof (intro conjI)
  show "cacheKey opts = Some k \<and> k \<noteq> [] \<and> \<not> forceUpdate opts \<and>
    \<not> (requireAdmin opts \<and> isWeb st) \<and> promises st k = Some p
      \<longrightarrow> request_async st opts =
            (st\<lparr>next_promise := Suc (next_promise st)\<rparr>, [], next_promise st, Returned p)"
    by (rule impI, rule request_async_cache_hit, assumption)
  show "cacheKey optsA = Some k \<and> k \<noteq> [] \<and>
    (request_async st optsA = (stA, esA, wA, Returned pA) \<or>
     request_resume st optsA awaited fs = (stA, esA, Returned pA)) \<and>
    system_run stA evs = Some stB \<and> list_all (\<lambda>ev. \<not> replaces_key k ev) evs \<and>
    cacheKey optsB = Some k \<and> \<not> forceUpdate optsB \<and> \<not> (requireAdmin optsB \<and> isWeb stB)
      \<longrightarrow> request_async stB optsB =
            (stB\<lparr>next_promise := Suc (next_promise stB)\<rparr>, [], next_promise stB, Returned pA)"
    by (rule impI, rule later_call_follows_entry, assumption)
  show "cacheKey optsA = Some k \<and> k \<noteq> [] \<and>
    request_async st optsA = (stA, esA, wA, Returned pA) \<and>
    system_run stA evs = Some stB \<and> list_all (\<lambda>ev. \<not> replaces_key k ev) evs
      \<longrightarrow> wA < next_promise stB"
    by (rule impI, rule later_call_other_promise, assumption)
  show "cacheKey opts = Some k \<and> k \<noteq> [] \<and> forceUpdate opts \<and>
    (request_async st opts = (st', es, w, Returned p') \<or>
     request_resume st opts awaited fs = (st', es, Returned p'))
      \<longrightarrow> cached st opts = None \<and> next_promise st \<le> p' \<and> p' < next_promise st' \<and>
          promises st' k = Some p'"
    by (rule impI, rule forced_call_replaces_entry, assumption)
qed

lemmas eval_async = request_async_def eval_request

lemma scenario_facts:
  "caller_first = (after_first, [Emit ''getX'' []], 0, Returned 1)"
  "system_run after_first busy_time = Some after_events"
  "\<not> isWeb after_first" "\<not> isWeb after_events" "\<not> connected after_events"
  "gated_first_resumed = (fst gated_first_resumed, [Emit ''getX'' []], Returned 3)"
  "system_run (fst gated_first_resumed) [] = Some (fst gated_first_resumed)"
  "\<not> isWeb (fst gated_first_resumed)"
  "promises after_first ''k'' = Some 1"
proof -
  have "snd caller_first = ([Emit ''getX'' []], 0, Returned 1)"
    by (simp add: caller_first_def online_def plain_opts_def eval_async)
  then show "caller_first = (after_first, [Emit ''getX'' []], 0, Returned 1)"
    by (simp add: after_first_def prod_eq_iff)
  show "system_run after_first busy_time = Some after_events"
    by (simp add: busy_time_def after_events_def)
  show "\<not> isWeb after_first"
    by (simp add: after_first_def caller_first_def online_def plain_opts_def eval_async)
  show "\<not> isWeb after_events" "\<not> connected after_events"
    by (simp_all add: after_events_def after_first_def caller_first_def online_def
        plain_opts_def cmdExec_opts_def cmdExec_options_def eval_async on_disconnect_def
        stateChange_def)
  have "snd gated_first_resumed = ([Emit ''getX'' []], Returned 3)"
    by (simp add: gated_first_def gated_second_def gate_answered_def gated_first_resumed_def
      online_def feature_opts_def eval_async)
  then show "gated_first_resumed = (fst gated_first_resumed, [Emit ''getX'' []], Returned 3)"
    by (simp add: prod_eq_iff)
  show "system_run (fst gated_first_resumed) [] = Some (fst gated_first_resumed)" by simp
  show "\<not> isWeb (fst gated_first_resumed)"
    by (simp add: gated_first_def gated_second_def gate_answered_def gated_first_resumed_def
      online_def feature_opts_def eval_async)
  show "promises after_first ''k'' = Some 1"
    by (simp add: after_first_def caller_first_def online_def plain_opts_def eval_async)
qed

theorem cached_outcome_shared_and_replaced_witness:
  "request_async after_first plain_opts =
     (after_first\<lparr>next_promise := Suc (next_promise after_first)\<rparr>, [],
      next_promise after_first, Returned 1) \<and>
   request_async after_events plain_opts =
     (after_events\<lparr>next_promise := Suc (next_promise after_events)\<rparr>, [],
      next_promise after_events, Returned 1) \<and>
   0 < next_promise after_events \<and>
   request_async (fst gated_first_resumed) plain_opts =
     ((fst gated_first_resumed)\<lparr>next_promise := Suc (next_promise (fst gated_first_resumed))\<rparr>,
      [], next_promise (fst gated_first_resumed), Returned 3) \<and>
   snd (request_async after_first forced_opts) = ([Emit ''getX'' []], 2, Returned 3) \<and>
   cached after_first forced_opts = None \<and>
   promises (fst (request_async after_first forced_opts)) ''k'' = Some 3"
proof -
  have k: "cacheKey plain_opts = Some ''k''" "\<not> forceUpdate plain_opts"
    "\<not> requireAdmin plain_opts" "cacheKey forced_opts = Some ''k''" "forceUpdate forced_opts"
    "cacheKey feature_opts = Some ''k''" "''k'' \<noteq> []"
    by (simp_all add: plain_opts_def forced_opts_def feature_opts_def)
  have quiet: "list_all (\<lambda>ev. \<not> replaces_key ''k'' ev) busy_time"
    "list_all (\<lambda>ev. \<not> replaces_key ''k'' ev) []"
    by (simp_all add: busy_time_def cmdExec_opts_def cmdExec_options_def)
  have first: "request_async online plain_opts = (after_first, [Emit ''getX'' []], 0, Returned 1)"
    using scenario_facts(1) by (simp add: caller_first_def)
  have s3: "snd (request_async after_first forced_opts) = ([Emit ''getX'' []], 2, Returned 3)"
    by (simp add: after_first_def caller_first_def online_def plain_opts_def forced_opts_def
        eval_async)
  then obtain st' where forced: "request_async after_first forced_opts =
      (st', [Emit ''getX'' []], 2, Returned 3)"
    by (cases "request_async after_first forced_opts") auto
  note hit = cached_outcome_shared_and_replaced
      [where opts = plain_opts and k = "''k''" and st = after_first and p = 1]
  note later = cached_outcome_shared_and_replaced
      [where optsA = plain_opts and k = "''k''" and st = online and stA = after_first
         and esA = "[Emit ''getX'' []]" and wA = 0 and pA = 1 and evs = busy_time
         and stB = after_events and optsB = plain_opts]
  note resumed = cached_outcome_shared_and_replaced
      [where optsA = feature_opts and k = "''k''" and st = gate_answered
         and stA = "fst gated_first_resumed" and esA = "[Emit ''getX'' []]" and pA = 3
         and awaited = "Returned 1" and fs = "[]" and evs = "[]"
         and stB = "fst gated_first_resumed" and optsB = plain_opts]
  note replace = cached_outcome_shared_and_replaced
      [where opts = forced_opts and k = "''k''" and st = after_first and st' = st'
         and es = "[Emit ''getX'' []]" and w = 2 and p' = 3]
  have a: "request_async after_first plain_opts =
     (after_first\<lparr>next_promise := Suc (next_promise after_first)\<rparr>, [],
      next_promise after_first, Returned 1)"
    using hit k scenario_facts(3,9) by blast
  have b: "request_async after_events plain_opts =
     (after_events\<lparr>next_promise := Suc (next_promise after_events)\<rparr>, [],
      next_promise after_events, Returned 1)"
    using later k quiet first scenario_facts(2,4) by blast
  have c: "0 < next_promise after_events"
    using later k quiet first scenario_facts(2) by blast
  have r: "request_resume gate_answered feature_opts (Returned 1) [] =
      (fst gated_first_resumed, [Emit ''getX'' []], Returned 3)"
    using scenario_facts(6) by (simp add: gated_first_resumed_def)
  have d: "request_async (fst gated_first_resumed) plain_opts =
     ((fst gated_first_resumed)\<lparr>next_promise := Suc (next_promise (fst gated_first_resumed))\<rparr>,
      [], next_promise (fst gated_first_resumed), Returned 3)"
    using resumed k quiet r scenario_facts(7,8) by blast
  have e: "cached after_first forced_opts = None \<and> promises st' ''k'' = Some 3"
    using replace k forced by blast
  show ?thesis using a b c d e s3 forced by simp
qed

text \<open>
  Claim C1 as the specification states it fails twice. Two plain calls with the same
  cache key, the second made before the first has resolved, are handed two different
  promises (numbers 0 and 2), which both follow the one stored promise 1: the outcome is
  shared, the instance is not. And two calls with a required feature, made while no
  outcome has resolved, share nothing: both are suspended at the feature check, and after
  the answer each constructs a promise of its own (3 and 4) and runs its executor, the
  second replacing the first in the cache.
\<close>

theorem concurrent_calls_not_one_instance:
  "snd caller_first = ([Emit ''getX'' []], 0, Returned 1) \<and>
   snd caller_second = ([], 2, Returned 1) \<and>
   snd (snd (snd gated_first)) = Suspended (Returned 1) [] \<and>
   snd (snd (snd gated_second)) = Suspended (Returned 1) [] \<and>
   snd gated_first_resumed = ([Emit ''getX'' []], Returned 3) \<and>
   snd gated_second_resumed = ([Emit ''getX'' []], Returned 4) \<and>
   promises (fst gated_second_resumed) ''k'' = Some 4"
  by (simp add: caller_first_def caller_second_def after_first_def gated_first_def
      gated_second_def gate_answered_def gated_first_resumed_def gated_second_resumed_def
      online_def plain_opts_def feature_opts_def eval_async)

subsection \<open>The timeout\<close>

lemma update_call_idle:
  "calls st p = Some c \<Longrightarrow> f c = c \<Longrightarrow> update_call st p f = st"
  by (simp add: update_call_def map_upd_triv)

lemma signal_after_timeout:
  assumes "calls st p = Some c" "timed_out c"
  shows "fst (signal st p a) = st \<and> list_all is_Emit (snd (signal st p a))"
  using assms
  by (cases a) (simp_all add: timed_out_def update_call_idle settle_def clear_timer_def)

lemma timer_expired_after_timeout:
  assumes "calls st p = Some c" "timed_out c"
  shows "timer_expired st p = (st, [])"
  using assms by (simp add: timer_expired_def timed_out_def)

lemma cmdExec_ack_after_timeout:
  assumes "calls st p = Some c" "timed_out c"
  shows "cmdExec_ack st p err = (st, [])"
  using assms by (simp add: cmdExec_ack_def timed_out_def)

lemma call_step_after_timeout:
  assumes "calls st p = Some c" "timed_out c"
  shows "fst (call_step st p ev) = st \<and> list_all is_Emit (snd (call_step st p ev))"
  using assms
  by (cases ev)
     (simp_all add: signal_after_timeout timer_expired_after_timeout cmdExec_ack_after_timeout)

lemma run_call_events_after_timeout:
  assumes "calls st p = Some c" "timed_out c"
  shows "fst (run_call_events st p evs) = st \<and> list_all is_Emit (snd (run_call_events st p evs))"
proof (induction evs)
  case Nil
  show ?case by simp
next
  case (Cons ev evs)
  obtain st1 es1 where s: "call_step st p ev = (st1, es1)" by (cases "call_step st p ev")
  with call_step_after_timeout [OF assms, of ev] have 1: "st1 = st" "list_all is_Emit es1"
    by simp_all
  with Cons s show ?case by (auto split: prod.splits)
qed

lemma run_executor_emits_only:
  "list_all is_SocketEmit as \<Longrightarrow> fst (run_executor st p as) = st"
proof (induction as)
  case Nil
  show ?case by simp
next
  case (Cons a as)
  then show ?case by (cases a) (auto split: prod.splits)
qed

lemma construct_arms_timer:
  assumes "construct st opts = (st1, es1, r)" "list_all is_SocketEmit (executor opts)"
    "commandTimeout opts \<noteq> Disabled"
  shows "\<exists>n. calls st1 (next_promise st) = Some \<lparr>outcome = Pending, elapsed = False, timer = Armed n\<rparr>"
proof -
  define st0 where "st0 = st\<lparr>calls := (calls st)(next_promise st \<mapsto>
      \<lparr>outcome = Pending, elapsed = False,
       timer = (case commandTimeout opts of Disabled \<Rightarrow> NoTimer | Millis n \<Rightarrow> Armed n
                | Default \<Rightarrow> Armed (cmdTimeout st))\<rparr>), next_promise := Suc (next_promise st)\<rparr>"
  have "fst (run_executor st0 (next_promise st) (executor opts)) = st0"
    using assms(2) by (rule run_executor_emits_only)
  then obtain es where r: "run_executor st0 (next_promise st) (executor opts) = (st0, es)"
    by (cases "run_executor st0 (next_promise st) (executor opts)") auto
  have "calls st1 (next_promise st) = calls st0 (next_promise st)"
    using assms(1) r unfolding construct_def Let_def st0_def [symmetric]
    by (auto split: option.splits if_splits)
  then show ?thesis using assms(3) by (cases "commandTimeout opts") (simp_all add: st0_def)
qed

text \<open>
  Every call of \<^verbatim>\<open>request\<close> that runs its executor does so in \<open>construct\<close>: at once when
  it has no features to check (\<open>request_past_gates\<close>, \<open>request_Returned\<close>), or on its
  resumption after the feature checks (\<open>request_resume_Returned\<close>). A call that fails at a
  gate or is answered from the cache runs no executor and arms no timer.

  Claim C4. Take a request whose timeout is not disabled and whose executor body never
  completes, at the construction of its promise \<open>p\<close>. The promise is pending until the
  timer expires. When it expires, the promise is rejected with \<^verbatim>\<open>TIMEOUT\<close>, the
  \<^verbatim>\<open>elapsed\<close> flag is set and \<^verbatim>\<open>onTimeout\<close> is called once. From then on nothing changes
  the call any more: an acknowledgement of the transport for \<^verbatim>\<open>cmdExec\<close> is dropped with
  no effect, and whatever sequence of acknowledgements, \<^verbatim>\<open>resolve\<close>, \<^verbatim>\<open>reject\<close>,
  \<^verbatim>\<open>clearTimeout\<close> signals and further expiries follows, the connection stays as it is
  and \<^verbatim>\<open>onTimeout\<close> is not called again.
\<close>

theorem timeout_rejects_once_and_for_all:
  assumes "commandTimeout opts \<noteq> Disabled"
    and "list_all is_SocketEmit (executor opts)"
    and "construct st opts = (st1, es1, Returned p)"
    and "timer_expired st1 p = (st2, es2)"
  shows "result_outcome st1 (Returned p) = Pending \<and>
         result_outcome st2 (Returned p) = Rejected ERRORS_TIMEOUT \<and>
         es2 = [OnTimeout p] \<and>
         (\<exists>c. calls st2 p = Some c \<and> elapsed c) \<and>
         cmdExec_ack st2 p err = (st2, []) \<and>
         fst (run_call_events st2 p evs) = st2 \<and>
         OnTimeout p \<notin> set (snd (run_call_events st2 p evs))"
proof -
  note c = assms(3)
  have p: "p = next_promise st" using construct_result [OF c] by simp
  obtain n where armed:
    "calls st1 p = Some \<lparr>outcome = Pending, elapsed = False, timer = Armed n\<rparr>"
    using construct_arms_timer [OF c assms(2,1)] p by auto
  let ?c = "\<lparr>outcome = Rejected ERRORS_TIMEOUT, elapsed = True, timer = Fired\<rparr>"
  have st2: "st2 = st1\<lparr>calls := (calls st1)(p \<mapsto> ?c)\<rparr>" and es2: "es2 = [OnTimeout p]"
    using assms(4) armed by (simp_all add: timer_expired_def settle_def)
  have c2: "calls st2 p = Some ?c" by (simp add: st2)
  have t: "timed_out ?c" by (simp add: timed_out_def)
  note after = run_call_events_after_timeout [OF c2 t, of evs]
  have "OnTimeout p \<notin> set (snd (run_call_events st2 p evs))"
  proof
    assume "OnTimeout p \<in> set (snd (run_call_events st2 p evs))"
    with after have "is_Emit (OnTimeout p)" by (auto simp: list_all_iff)
    then show False by simp
  qed
  with armed c2 es2 after cmdExec_ack_after_timeout [OF c2 t, of err] show ?thesis
    by simp
qed

theorem timeout_rejects_once_and_for_all_witness:
  "request online cmdExec_opts = construct online cmdExec_opts \<and>
   result_outcome cmdExec_started (Returned 0) = Pending \<and>
   result_outcome cmdExec_timed_out (Returned 0) = Rejected ERRORS_TIMEOUT \<and>
   snd (timer_expired cmdExec_started 0) = [OnTimeout 0] \<and>
   cmdExec_ack cmdExec_timed_out 0 (Some (JStr ''failed'')) = (cmdExec_timed_out, []) \<and>
   fst (run_call_events cmdExec_timed_out 0
         [CmdExecAck None, Signal (Resolve None), TimerExpires, Signal (Reject (JStr ''late''))])
     = cmdExec_timed_out \<and>
   timed_resumed = construct timed_gate_answered timed_feature_opts \<and>
   snd (snd timed_resumed) = Returned 1 \<and>
   result_outcome (fst timed_resumed) (Returned 1) = Pending \<and>
   result_outcome gated_timed_out (Returned 1) = Rejected ERRORS_TIMEOUT \<and>
   snd (timer_expired (fst timed_resumed) 1) = [OnTimeout 1] \<and>
   OnTimeout 1 \<notin> set (snd (run_call_events gated_timed_out 1
         [CmdExecAck None, TimerExpires, Signal (Resolve None)]))"
proof -
  have h1: "commandTimeout cmdExec_opts \<noteq> Disabled"
    "commandTimeout timed_feature_opts \<noteq> Disabled"
    and h2: "list_all is_SocketEmit (executor cmdExec_opts)"
    "list_all is_SocketEmit (executor timed_feature_opts)"
    by (simp_all add: timed_feature_opts_def cmdExec_opts_def cmdExec_options_def)
  have direct: "request online cmdExec_opts = construct online cmdExec_opts"
    by (subst request_past_gates)
       (simp_all add: cmdExec_opts_def cmdExec_options_def online_def cached_def isWeb_def
          new_connection_def)
  have "snd (snd (request online cmdExec_opts)) = Returned 0"
    by (simp add: cmdExec_opts_def cmdExec_options_def online_def eval_request)
  then have h3: "construct online cmdExec_opts =
      (cmdExec_started, fst (snd (request online cmdExec_opts)), Returned 0)"
    by (simp add: direct [symmetric] cmdExec_started_def prod_eq_iff)
  have h4: "timer_expired cmdExec_started 0 =
      (cmdExec_timed_out, snd (timer_expired cmdExec_started 0))"
    by (simp add: cmdExec_timed_out_def)
  have ans: "result_outcome timed_gate_answered (Returned 0) = Fulfilled (Some (JBool True))"
    by (simp add: timed_gate_answered_def timed_feature_opts_def cmdExec_opts_def
        cmdExec_options_def online_def eval_request)
  then have resumed: "timed_resumed = construct timed_gate_answered timed_feature_opts"
    by (simp add: timed_resumed_def request_resume_def)
  have r1: "snd (snd timed_resumed) = Returned 1"
    by (simp add: timed_resumed_def timed_gate_answered_def timed_feature_opts_def
        cmdExec_opts_def cmdExec_options_def online_def eval_request)
  from r1 have g3: "construct timed_gate_answered timed_feature_opts =
      (fst timed_resumed, fst (snd timed_resumed), Returned 1)"
    by (simp add: resumed [symmetric] prod_eq_iff)
  have g4: "timer_expired (fst timed_resumed) 1 =
      (gated_timed_out, snd (timer_expired (fst timed_resumed) 1))"
    by (simp add: gated_timed_out_def)
  note A = timeout_rejects_once_and_for_all [OF h1(1) h2(1) h3 h4,
      where err = "Some (JStr ''failed'')"
        and evs = "[CmdExecAck None, Signal (Resolve None), TimerExpires,
                    Signal (Reject (JStr ''late''))]"]
  note B = timeout_rejects_once_and_for_all [OF h1(2) h2(2) g3 g4,
      where evs = "[CmdExecAck None, TimerExpires, Signal (Resolve None)]"]
  from A B direct resumed r1 show ?thesis by blast
qed

section \<open>Properties of the change notifications\<close>

lemma set_own_keys: "set (own_keys al) = fst ` set al"
  by (auto simp: own_keys_def)

lemma map_of_own_keys: "map_of al k = Some e \<Longrightarrow> k \<in> set (own_keys al)"
  by (auto simp: set_own_keys dest: map_of_SomeD intro: rev_image_eqI)

lemma fanout_membership:
  "x \<in> set (concat (map (\<lambda>k. case map_of r k of
                                  None \<Rightarrow> []
                                | Some e \<Rightarrow> if P k e then map F (cbs e) else [])
                           (own_keys r)))
   \<longleftrightarrow> (\<exists>k e cb. map_of r k = Some e \<and> P k e \<and> cb \<in> set (cbs e) \<and> x = F cb)"
  (is "?lhs \<longleftrightarrow> ?rhs")
proof
  assume ?lhs
  then obtain k where k: "k \<in> set (own_keys r)"
    and x: "x \<in> set (case map_of r k of None \<Rightarrow> []
                      | Some e \<Rightarrow> if P k e then map F (cbs e) else [])"
    by auto
  show ?rhs
  proof (cases "map_of r k")
    case None
    with x show ?thesis by simp
  next
    case (Some e)
    with x have "P k e" "x \<in> F ` set (cbs e)" by (auto split: if_splits)
    with Some show ?thesis by blast
  qed
next
  assume ?rhs
  then obtain k e cb where m: "map_of r k = Some e" and p: "P k e"
    and cb: "cb \<in> set (cbs e)" and x: "x = F cb" by blast
  have "k \<in> set (own_keys r)" using m by (rule map_of_own_keys)
  moreover have "x \<in> set (case map_of r k of None \<Rightarrow> []
                      | Some e \<Rightarrow> if P k e then map F (cbs e) else [])"
    using m p cb x by simp
  ultimately show ?lhs by auto
qed

text \<open>
  Claim C7, as the code has it. \<^verbatim>\<open>stateChange\<close> writes no field of the connection: the
  local state cache is the same before and after the notification (only \<^verbatim>\<open>getStates\<close>
  assigns it). What it does is the fan-out: its effects are exactly the calls
  \<open>cb(id, state)\<close> for the callbacks \<open>cb\<close> of the entries whose expression accepts the
  identifier.
\<close>

theorem stateChange_keeps_cache:
  "fst (stateChange st ident state) = st \<and>
   states (fst (stateChange st ident state)) = states st \<and>
   (eff \<in> set (snd (stateChange st ident state)) \<longleftrightarrow>
      (\<exists>k e cb. map_of (statesSubscribes st) k = Some e \<and> match_anywhere (reg e) ident \<and>
                cb \<in> set (cbs e) \<and> eff = StateCallback cb ident state))"
  unfolding stateChange_def fst_conv snd_conv
  using fanout_membership [where x = eff and r = "statesSubscribes st"
      and P = "\<lambda>k e. match_anywhere (reg e) ident"
      and F = "\<lambda>cb. StateCallback cb ident state"]
  by simp

theorem stateChange_keeps_cache_witness:
  "fst (stateChange watching ''a.x'' (Some reading)) = watching \<and>
   states (fst (stateChange watching ''a.x'' (Some reading))) = states watching \<and>
   snd (stateChange watching ''a.x'' (Some reading)) =
     [StateCallback 1 ''a.x'' (Some reading), StateCallback 2 ''a.x'' (Some reading)] \<and>
   StateCallback 2 ''a.x'' (Some reading) \<in> set (snd (stateChange watching ''a.x'' (Some reading))) \<and>
   StateCallback 3 ''a.x'' (Some reading) \<notin> set (snd (stateChange watching ''a.x'' (Some reading)))"
proof -
  have e: "snd (stateChange watching ''a.x'' (Some reading)) =
     [StateCallback 1 ''a.x'' (Some reading), StateCallback 2 ''a.x'' (Some reading)]"
    by (simp add: stateChange_def watching_def own_keys_def is_array_index_def)
  show ?thesis
    using stateChange_keeps_cache [of watching "''a.x''" "Some reading"] e by simp
qed

text \<open>
  Claim C7 as the specification states it fails: after a notification for \<^verbatim>\<open>a.x\<close> the
  cache holds no entry for \<^verbatim>\<open>a.x\<close>, and not the payload.
\<close>

theorem stateChange_cache_counterexample:
  "states (fst (stateChange watching ''a.x'' (Some reading))) ''a.x'' \<noteq> Some reading"
  by (simp add: stateChange_def watching_def online_def new_connection_def)

subsection \<open>Object changes\<close>

lemma get_prop_set_prop:
  "get_prop (set_prop cur k v) k' = (if k' = k then Some v else get_prop cur k')"
  by (induction cur) (auto simp: get_prop_def)

lemma type_after_stamp: "get_prop (stamp_rev cur ob) ''type'' = get_prop cur ''type''"
  by (simp add: stamp_rev_def get_prop_set_prop split: option.splits)

lemma object_fanout_membership:
  "eff \<in> set (object_fanout r ident obj oldObj) \<longleftrightarrow>
     (\<exists>k e cb. map_of r k = Some e \<and> (k = ident \<or> match_anywhere (reg e) ident) \<and>
               cb \<in> set (cbs e) \<and> eff = ObjectCallback cb ident obj oldObj)"
  unfolding object_fanout_def
  using fanout_membership [where x = eff and r = r
      and P = "\<lambda>k e. k = ident \<or> match_anywhere (reg e) ident"
      and F = "\<lambda>cb. ObjectCallback cb ident obj oldObj"]
  by simp

lemma own_entry_wins: "m ident = Some cur \<Longrightarrow> objects_get m ident = Own cur"
  by (simp add: objects_get_def)

lemma objects_get_update: "objects_get (m(ident \<mapsto> cur)) ident = Own cur"
  by (simp add: objects_get_def)

lemma summary_after_stamp:
  "objects_get m ident = Own cur \<Longrightarrow>
   previous_summary (m(ident \<mapsto> stamp_rev cur ob)) ident = previous_summary m ident"
  by (simp add: previous_summary_def objects_get_update type_after_stamp)

lemma objectChange_update:
  assumes "objects st = Some m" "ident \<noteq> ''__proto__''"
  shows "objectChange st ident (Some ob) =
    Some (st\<lparr>objects := Some (m(ident \<mapsto> ob))\<rparr>,
     (case objects_get m ident of Inherited \<Rightarrow> stamp_inherited ident ob | _ \<Rightarrow> []) @
     object_fanout (objectsSubscribes st) ident (Some ob) (previous_summary m ident) @
     (if (case objects_get m ident of Own cur \<Rightarrow> stamp_rev cur ob \<noteq> ob | _ \<Rightarrow> True)
      then [OnObjectChange ident (Some ob)] else []),
     (case objects_get m ident of Own cur \<Rightarrow> stamp_rev cur ob \<noteq> ob | _ \<Rightarrow> True))"
proof (cases "objects_get m ident")
  case (Own cur)
  then have own: "m ident = Some cur"
    by (auto simp: objects_get_def split: option.splits if_splits)
  show ?thesis
  proof (cases "stamp_rev cur ob = ob")
    case True
    then have "m(ident \<mapsto> ob) = m(ident \<mapsto> stamp_rev cur ob)" by simp
    then show ?thesis
      using assms Own True summary_after_stamp [OF Own, of ob]
      by (simp add: objectChange_def same_serialisation_def objects_get_update)
  next
    case False
    then show ?thesis
      using assms Own summary_after_stamp [OF Own, of ob]
      by (simp add: objectChange_def same_serialisation_def objects_get_update)
  qed
next
  case Inherited
  with assms show ?thesis by (simp add: objectChange_def)
next
  case Absent
  with assms show ?thesis by (simp add: objectChange_def)
qed

lemma objectChange_removal:
  assumes "objects st = Some m" "ident \<noteq> ''__proto__''"
  shows "objectChange st ident None =
    Some (st\<lparr>objects := Some (m(ident := None))\<rparr>,
     object_fanout (objectsSubscribes st) ident None (previous_summary m ident) @
     (if objects_get m ident \<noteq> Absent then [OnObjectChange ident None] else []),
     objects_get m ident \<noteq> Absent)"
proof (cases "objects_get m ident")
  case (Own cur)
  with assms show ?thesis by (simp add: objectChange_def)
next
  case Inherited
  with assms show ?thesis by (simp add: objectChange_def)
next
  case Absent
  then have "m ident = None" by (auto simp: objects_get_def split: option.splits)
  then have "m(ident := None) = m" by auto
  with assms Absent show ?thesis by (simp add: objectChange_def previous_summary_def)
qed

lemma stamp_inherited_effects:
  "ObjectCallback cb i ob' old \<notin> set (stamp_inherited ident ob) \<and>
   OnObjectChange i ob' \<notin> set (stamp_inherited ident ob)"
  by (auto simp: stamp_inherited_def split: option.splits)

text \<open>
  Claim C6, as the code has it, for a connection that has an object mirror and an
  identifier other than \<^verbatim>\<open>__proto__\<close>. The notification is processed, and afterwards the
  mirror holds the incoming object under the identifier when the object is not null (the
  whole object, nothing of the old one is kept: where the stored object differed in its
  revision only, the stamped revision makes it equal to the incoming one), and holds no
  entry when it is null; the other identifiers keep their entries. The flag
  \<^verbatim>\<open>changed\<close> tells, for an object, whether the stored entry after the revision stamp and
  the incoming object differ (they do when there is no stored entry), and for null,
  whether \<^verbatim>\<open>this.objects[id]\<close> was truthy. The registered callbacks whose key is the
  identifier or whose expression accepts it are called with the identifier, the incoming
  object and the previous summary. The summary is passed whenever \<^verbatim>\<open>this.objects[id]\<close> was
  truthy before, whether the object changed or not: it holds the identifier and the type
  of the stored entry, or the identifier and no type where the identifier only names a
  function that every object inherits (\<^verbatim>\<open>valueOf\<close>, \<^verbatim>\<open>constructor\<close> and the like); it is
  undefined otherwise. Only the \<^verbatim>\<open>onObjectChange\<close> hook of the properties depends on the
  flag.
\<close>

theorem objectChange_mirror:
  assumes "objects st = Some m" and "ident \<noteq> ''__proto__''"
  shows "\<exists>st' es changed.
           objectChange st ident obj = Some (st', es, changed) \<and>
           objects st' =
             Some (case obj of Some ob \<Rightarrow> m(ident \<mapsto> ob) | None \<Rightarrow> m(ident := None)) \<and>
           changed =
             (case obj of
                Some ob \<Rightarrow>
                  (case objects_get m ident of Own cur \<Rightarrow> stamp_rev cur ob \<noteq> ob | _ \<Rightarrow> True)
              | None \<Rightarrow> objects_get m ident \<noteq> Absent) \<and>
           (ObjectCallback cb i ob' old \<in> set es \<longleftrightarrow>
              i = ident \<and> ob' = obj \<and> old = previous_summary m ident \<and>
              (\<exists>k e. map_of (objectsSubscribes st) k = Some e \<and>
                     (k = ident \<or> match_anywhere (reg e) ident) \<and> cb \<in> set (cbs e))) \<and>
           (OnObjectChange i ob' \<in> set es \<longleftrightarrow> i = ident \<and> ob' = obj \<and> changed)"
proof (cases obj)
  case None
  show ?thesis
    unfolding None objectChange_removal [OF assms]
    by (auto simp: object_fanout_membership)
next
  case (Some ob)
  show ?thesis
    unfolding Some objectChange_update [OF assms]
    using stamp_inherited_effects [of cb i ob' old ident ob]
    by (auto simp: object_fanout_membership split: lookup.splits)
qed

theorem objectChange_mirror_witness:
  "objects mirrored = Some [''a'' \<mapsto> doc] \<and> ''a'' \<noteq> ''__proto__'' \<and>
   ''valueOf'' \<noteq> ''__proto__'' \<and>
   (\<exists>st' es. objectChange mirrored ''a'' (Some [(''_id'', JStr ''a'')]) = Some (st', es, True) \<and>
      objects st' = Some [''a'' \<mapsto> [(''_id'', JStr ''a'')]] \<and>
      ObjectCallback 1 ''a'' (Some [(''_id'', JStr ''a'')]) (Some (''a'', Some (JStr ''state'')))
        \<in> set es) \<and>
   (\<exists>st' es. objectChange mirrored ''valueOf'' None = Some (st', es, True) \<and>
      objects st' = Some [''a'' \<mapsto> doc] \<and>
      OnObjectChange ''valueOf'' None \<in> set es \<and>
      ObjectCallback 1 ''valueOf'' None None \<notin> set es)"
proof -
  have h: "objects mirrored = Some [''a'' \<mapsto> doc]" by (simp add: mirrored_def)
  have n: "''a'' \<noteq> ''__proto__''" "''valueOf'' \<noteq> ''__proto__''" by simp_all
  have m: "map_of (objectsSubscribes mirrored) ''a''
      = Some \<lparr>reg = [One (Lit (CHR ''a'')), AtEnd], cbs = [1]\<rparr>"
    by (simp add: mirrored_def)
  have g: "objects_get [''a'' \<mapsto> doc] ''a'' = Own doc"
    "objects_get [''a'' \<mapsto> doc] ''valueOf'' = Inherited"
    by (simp_all add: objects_get_def object_prototype_names_def)
  have s: "stamp_rev doc [(''_id'', JStr ''a'')] \<noteq> [(''_id'', JStr ''a'')]"
    by (simp add: stamp_rev_def doc_def get_prop_def)
  have t: "get_prop doc ''type'' = Some (JStr ''state'')" by (simp add: doc_def get_prop_def)
  have q: "previous_summary [''a'' \<mapsto> doc] ''a'' = Some (''a'', Some (JStr ''state''))"
    "previous_summary [''a'' \<mapsto> doc] ''valueOf'' = Some (''valueOf'', None)"
    by (simp_all add: previous_summary_def g t)
  have ex: "\<exists>k e. map_of (objectsSubscribes mirrored) k = Some e \<and>
      (k = ''a'' \<or> match_anywhere (reg e) ''a'') \<and> 1 \<in> set (cbs e)"
    using m by (intro exI [of _ "''a''"] exI [of _ "\<lparr>reg = [One (Lit (CHR ''a'')), AtEnd], cbs = [1]\<rparr>"]) simp
  have u: "[''a'' \<mapsto> doc, ''a'' \<mapsto> [(''_id'', JStr ''a'')]] = [''a'' \<mapsto> [(''_id'', JStr ''a'')]]"
    "[''a'' \<mapsto> doc](''valueOf'' := None) = [''a'' \<mapsto> doc]"
    by auto
  from objectChange_mirror [OF h n(1), where obj = "Some [(''_id'', JStr ''a'')]"
      and cb = 1 and i = "''a''" and ob' = "Some [(''_id'', JStr ''a'')]"
      and old = "Some (''a'', Some (JStr ''state''))"]
  have 1: "\<exists>st' es. objectChange mirrored ''a'' (Some [(''_id'', JStr ''a'')]) = Some (st', es, True) \<and>
      objects st' = Some [''a'' \<mapsto> [(''_id'', JStr ''a'')]] \<and>
      ObjectCallback 1 ''a'' (Some [(''_id'', JStr ''a'')]) (Some (''a'', Some (JStr ''state'')))
        \<in> set es"
    using g s q ex u by auto
  from objectChange_mirror [OF h n(2), where obj = None
      and cb = 1 and i = "''valueOf''" and ob' = None and old = None]
  have 2: "\<exists>st' es. objectChange mirrored ''valueOf'' None = Some (st', es, True) \<and>
      objects st' = Some [''a'' \<mapsto> doc] \<and>
      OnObjectChange ''valueOf'' None \<in> set es \<and>
      ObjectCallback 1 ''valueOf'' None None \<notin> set es"
    using g q u by auto
  show ?thesis using h 1 2 by simp
qed

text \<open>
  Claim C6 as the specification states it (the summary is passed only when the object
  changed) fails: the mirror holds the document, the same document arrives again, the
  mirror stays as it is and \<^verbatim>\<open>changed\<close> is false, and yet the callback receives the
  summary of the stored object.
\<close>

theorem unchanged_object_gets_summary:
  "objectChange mirrored ''a'' (Some doc) =
     Some (mirrored,
           [ObjectCallback 1 ''a'' (Some doc) (Some (''a'', Some (JStr ''state'')))], False)"
proof -
  have "mirrored\<lparr>objects := Some [''a'' \<mapsto> doc]\<rparr> = mirrored" by (simp add: mirrored_def)
  then show ?thesis
    by (simp add: objectChange_def mirrored_def doc_def stamp_rev_def get_prop_def
        same_serialisation_def object_fanout_def own_keys_def is_array_index_def
        objects_get_def previous_summary_def)
qed

section \<open>Properties of the subscription registries\<close>

lemma no_empty_entries_delete: "no_empty_entries r \<Longrightarrow> no_empty_entries (reg_delete r k)"
  by (simp add: no_empty_entries_def reg_delete_def list_all_iff)

lemma no_empty_entries_update:
  "no_empty_entries r \<Longrightarrow> cbs e \<noteq> [] \<Longrightarrow> no_empty_entries (reg_update r k e)"
  by (auto simp: no_empty_entries_def reg_update_def list_all_iff)

lemma reg_delete_removes: "map_of (reg_delete r k) k = None"
  by (induction r) (auto simp: reg_delete_def)

text \<open>
  The state registry keeps the invariant: \<^verbatim>\<open>unsubscribeState\<close> never leaves an entry
  without callbacks, and when the last callback goes, the entry goes and the wire
  unsubscribe is emitted if the client is connected. So does the object registry as long
  as the client is connected.
\<close>

lemma unsubscribeState_no_empty_entries:
  assumes "no_empty_entries (statesSubscribes st)"
  shows "no_empty_entries (statesSubscribes (fst (unsubscribeState st ident cb)))"
  using assms
  by (auto simp: unsubscribeState_def Let_def no_empty_entries_delete no_empty_entries_update
      split: option.splits)

lemma unsubscribeState_last_callback:
  assumes "map_of (statesSubscribes st) ident = Some e"
    and "(case cb of Some c \<Rightarrow> remove1 c (cbs e) | None \<Rightarrow> []) = []"
  shows "map_of (statesSubscribes (fst (unsubscribeState st ident cb))) ident = None \<and>
         snd (unsubscribeState st ident cb) =
           (if connected st then [Emit ''unsubscribe'' [JStr ident]] else [])"
  using assms by (simp add: unsubscribeState_def Let_def reg_delete_removes)

lemma unsubscribeObject_connected_no_empty_entries:
  assumes "no_empty_entries (objectsSubscribes st)" "connected st"
  shows "no_empty_entries (objectsSubscribes (fst (unsubscribeObject st ident cb)))"
  using assms
  by (auto simp: unsubscribeObject_def Let_def no_empty_entries_delete no_empty_entries_update
      split: option.splits)

text \<open>
  Claim C5 on the object registry. A client that is not connected subscribes callback 1
  to the pattern \<^verbatim>\<open>a\<close> and unsubscribes it again. \<^verbatim>\<open>unsubscribeObject\<close> deletes an entry
  only while connected, so the entry stays in the registry with an empty list of
  callbacks, and the invariant is broken. \<^verbatim>\<open>unsubscribeState\<close>, run on the same steps,
  deletes its entry.
\<close>

theorem unsubscribeObject_keeps_empty_entry:
  "subscribeObject offline ''a'' 1 =
     Some (offline\<lparr>objectsSubscribes := [(''a'', entry_a [1])]\<rparr>, []) \<and>
   unsubscribeObject (offline\<lparr>objectsSubscribes := [(''a'', entry_a [1])]\<rparr>) ''a'' (Some 1) =
     (offline\<lparr>objectsSubscribes := [(''a'', entry_a [])]\<rparr>, []) \<and>
   \<not> no_empty_entries (objectsSubscribes
        (fst (unsubscribeObject (offline\<lparr>objectsSubscribes := [(''a'', entry_a [1])]\<rparr>)
                ''a'' (Some 1)))) \<and>
   subscribeState offline ''a'' False 1 =
     Some (offline\<lparr>statesSubscribes := [(''a'', entry_a [1])]\<rparr>, []) \<and>
   unsubscribeState (offline\<lparr>statesSubscribes := [(''a'', entry_a [1])]\<rparr>) ''a'' (Some 1) =
     (offline\<lparr>statesSubscribes := []\<rparr>, [])"
  by (simp add: subscribeObject_def unsubscribeObject_def subscribeState_def unsubscribeState_def
      offline_def new_connection_def entry_a_def compile_object_pattern_def
      compile_state_pattern_def replaceAll_def is_special_char_def is_syntax_char_def bslash_def
      Let_def reg_update_def reg_delete_def no_empty_entries_def)

section \<open>Properties of the lifecycle\<close>

lemma subscribe_all_first_connection:
  "first_connection (fst (subscribe_all st b)) = first_connection st \<and>
   first_connection_resolve (fst (subscribe_all st b)) = first_connection_resolve st \<and>
   FirstConnectionResolved \<notin> set (snd (subscribe_all st b))"
  by (auto simp: subscribe_all_def)

lemma onPreConnect_first_connection:
  "first_connection_resolve (fst (onPreConnect st isOk sec)) = False \<and>
   first_connection (fst (onPreConnect st isOk sec)) =
     (if first_connection_resolve st \<and> first_connection st = Pending then Fulfilled None
      else first_connection st) \<and>
   count_list (snd (onPreConnect st isOk sec)) FirstConnectionResolved =
     (if first_connection_resolve st then 1 else 0)"
proof -
  obtain st' es' where s: "subscribe_all
      (st\<lparr>authTimer := False, connected := True, isSecure := Some sec\<rparr>) True = (st', es')"
    by (cases "subscribe_all (st\<lparr>authTimer := False, connected := True, isSecure := Some sec\<rparr>) True")
  from subscribe_all_first_connection
    [of "st\<lparr>authTimer := False, connected := True, isSecure := Some sec\<rparr>" True] s
  have f: "first_connection st' = first_connection st"
    "first_connection_resolve st' = first_connection_resolve st"
    "FirstConnectionResolved \<notin> set es'"
    by simp_all
  then have c: "count_list es' FirstConnectionResolved = 0" by (simp add: count_list_0_iff)
  show ?thesis
    unfolding onPreConnect_def Let_def
    by (simp add: s f c)
qed

lemma other_steps_first_connection:
  assumes "\<not> is_PreConnect ev"
  shows "first_connection (fst (lifecycle_step st ev)) = first_connection st \<and>
         first_connection_resolve (fst (lifecycle_step st ev)) = first_connection_resolve st \<and>
         count_list (snd (lifecycle_step st ev)) FirstConnectionResolved = 0"
proof (cases ev)
  case (PreConnect isOk sec)
  with assms show ?thesis by (simp add: is_PreConnect_def)
next
  case Reconnect
  obtain st' es' where s: "subscribe_all (st\<lparr>connected := True\<rparr>) True = (st', es')"
    by (cases "subscribe_all (st\<lparr>connected := True\<rparr>) True")
  from subscribe_all_first_connection [of "st\<lparr>connected := True\<rparr>" True] s
  have f: "first_connection st' = first_connection st"
    "first_connection_resolve st' = first_connection_resolve st"
    "FirstConnectionResolved \<notin> set es'"
    by simp_all
  then have "count_list es' FirstConnectionResolved = 0" by (simp add: count_list_0_iff)
  with Reconnect s f show ?thesis by (simp add: on_reconnect_def Let_def)
next
  case Disconnect
  then show ?thesis by (simp add: on_disconnect_def)
next
  case Bootstrapped
  then show ?thesis by (simp add: bootstrap_loaded_def)
qed

lemma lifecycle_run_first_connection:
  assumes "first_connection_resolve st \<longrightarrow> first_connection st = Pending"
  shows "count_list (snd (lifecycle_run st evs)) FirstConnectionResolved =
           (if first_connection_resolve st \<and> list_ex is_PreConnect evs then 1 else 0) \<and>
         first_connection (fst (lifecycle_run st evs)) =
           (if first_connection_resolve st \<and> list_ex is_PreConnect evs then Fulfilled None
            else first_connection st) \<and>
         first_connection_resolve (fst (lifecycle_run st evs)) =
           (first_connection_resolve st \<and> \<not> list_ex is_PreConnect evs)"
  using assms
proof (induction evs arbitrary: st)
  case Nil
  show ?case by simp
next
  case (Cons ev evs)
  obtain st1 es1 where s: "lifecycle_step st ev = (st1, es1)" by (cases "lifecycle_step st ev")
  obtain st2 es2 where r: "lifecycle_run st1 evs = (st2, es2)" by (cases "lifecycle_run st1 evs")
  show ?case
  proof (cases "is_PreConnect ev")
    case True
    then obtain isOk sec where ev: "ev = PreConnect isOk sec"
      by (cases ev) (simp_all add: is_PreConnect_def)
    from onPreConnect_first_connection [of st isOk sec] s ev
    have 1: "\<not> first_connection_resolve st1"
      "first_connection st1 = (if first_connection_resolve st \<and> first_connection st = Pending
          then Fulfilled None else first_connection st)"
      "count_list es1 FirstConnectionResolved = (if first_connection_resolve st then 1 else 0)"
      by simp_all
    from Cons.IH [of st1] 1(1) r
    have 2: "count_list es2 FirstConnectionResolved = 0"
      "first_connection st2 = first_connection st1" "\<not> first_connection_resolve st2"
      by simp_all
    show ?thesis using True s r 1 2 Cons.prems by simp
  next
    case False
    from other_steps_first_connection [OF False, of st] s
    have 1: "first_connection st1 = first_connection st"
      "first_connection_resolve st1 = first_connection_resolve st"
      "count_list es1 FirstConnectionResolved = 0"
      by simp_all
    have "first_connection_resolve st1 \<longrightarrow> first_connection st1 = Pending"
      using 1 Cons.prems by simp
    from Cons.IH [OF this] r 1
    have 2: "count_list es2 FirstConnectionResolved =
           (if first_connection_resolve st \<and> list_ex is_PreConnect evs then 1 else 0)"
      "first_connection st2 =
           (if first_connection_resolve st \<and> list_ex is_PreConnect evs then Fulfilled None
            else first_connection st)"
      "first_connection_resolve st2 =
           (first_connection_resolve st \<and> \<not> list_ex is_PreConnect evs)"
      by simp_all
    show ?thesis using False s r 1 2 by simp
  qed
qed

text \<open>
  Claim C9. Start from a new connection and let any sequence of handshakes
  (\<^verbatim>\<open>onPreConnect\<close>, with any flags), reconnects, disconnects and bootstrap steps happen.
  The resolver of the first-connection promise is called once if the sequence holds a
  handshake, and never otherwise; after the first handshake the promise is fulfilled and
  stays so, and the resolver is gone for good. No step assigns the promise anew.
\<close>

theorem first_connection_resolved_once:
  "count_list (snd (lifecycle_run (new_connection subs log tmo url) evs)) FirstConnectionResolved =
     (if list_ex is_PreConnect evs then 1 else 0) \<and>
   first_connection (fst (lifecycle_run (new_connection subs log tmo url) evs)) =
     (if list_ex is_PreConnect evs then Fulfilled None else Pending) \<and>
   first_connection_resolve (fst (lifecycle_run (new_connection subs log tmo url) evs)) =
     (\<not> list_ex is_PreConnect evs)"
proof -
  have i: "first_connection_resolve (new_connection subs log tmo url)"
    "first_connection (new_connection subs log tmo url) = Pending"
    by (simp_all add: new_connection_def)
  from lifecycle_run_first_connection [of "new_connection subs log tmo url" evs] i
  show ?thesis by simp
qed

theorem first_connection_resolved_once_witness:
  "count_list (snd (lifecycle_run offline session)) FirstConnectionResolved = 1 \<and>
   first_connection (fst (lifecycle_run offline session)) = Fulfilled None \<and>
   count_list (snd (lifecycle_run offline [Disconnect, Reconnect])) FirstConnectionResolved = 0 \<and>
   first_connection (fst (lifecycle_run offline [Disconnect, Reconnect])) = Pending"
proof -
  have a: "list_ex is_PreConnect session" by (simp add: session_def is_PreConnect_def)
  have b: "\<not> list_ex is_PreConnect [Disconnect, Reconnect]" by (simp add: is_PreConnect_def)
  show ?thesis
    using first_connection_resolved_once [of None None None None session]
      first_connection_resolved_once [of None None None None "[Disconnect, Reconnect]"] a b
    by (simp add: offline_def)
qed

section \<open>Properties of writing objects\<close>

lemma stripped_eq:
  "delete_prop (delete_prop (delete_prop obj ''from'') ''user'') ''ts'' = stripped obj"
  by (induction obj) (auto simp: delete_prop_def stripped_def)

lemma copy_and_strip:
  assumes "a < length h"
  shows "heap_delete (heap_delete (heap_delete (h @ [h ! a]) (length h) ''from'')
            (length h) ''user'') (length h) ''ts'' = h @ [stripped (h ! a)]"
  by (simp add: heap_delete_def stripped_eq)

lemma write_request:
  "request st (write_options ev ident content) =
     (if connected st
      then (st\<lparr>calls := (calls st)(next_promise st \<mapsto>
                  \<lparr>outcome = Pending, elapsed = False, timer = NoTimer\<rparr>),
               next_promise := Suc (next_promise st)\<rparr>,
            [Emit ev [JStr ident, JObj content]], Returned (next_promise st))
      else (st, [], Failed ERRORS_NOT_CONNECTED))"
  by (simp add: request.simps write_options_def cached_def construct_def Let_def)

lemma setObject_copy:
  assumes "a < length h"
  shows "setObject h st ident (Some a) =
     Some (h @ [stripped (h ! a)],
           fst (request st (write_options ''setObject'' ident (stripped (h ! a)))),
           snd (request st (write_options ''setObject'' ident (stripped (h ! a)))))"
  using assms
  by (simp add: setObject_def JSON_copy_def copy_and_strip Let_def split: prod.splits)

lemma extendObject_copy:
  assumes "a < length h"
  shows "extendObject h st ident (Some a) =
     Some (h @ [stripped (h ! a)],
           fst (request st (write_options ''extendObject'' ident (stripped (h ! a)))),
           snd (request st (write_options ''extendObject'' ident (stripped (h ! a)))))"
  using assms
  by (simp add: extendObject_def JSON_copy_def copy_and_strip Let_def split: prod.splits)

text \<open>
  Claim C10. With a null argument \<^verbatim>\<open>setObject\<close> and \<^verbatim>\<open>extendObject\<close> fail with
  \<^verbatim>\<open>Null object is not allowed\<close>; the heap and the connection stay as they are and nothing
  is emitted. With a reference to an object, both allocate one new object, the copy of the
  argument without \<^verbatim>\<open>from\<close>, \<^verbatim>\<open>user\<close> and \<^verbatim>\<open>ts\<close>; a connected client emits the event
  with the identifier and that copy, a client that is not connected emits nothing. Every
  object that was in the heap before, the argument among them, is the same afterwards.
\<close>

theorem write_object_sends_stripped_copy:
  "setObject h st ident None = Some (h, st, [], Failed (JStr ''Null object is not allowed'')) \<and>
   extendObject h st ident None = Some (h, st, [], Failed (JStr ''Null object is not allowed'')) \<and>
   (a < length h \<longrightarrow>
      (\<exists>st' r. setObject h st ident (Some a) =
           Some (h @ [stripped (h ! a)], st',
                 if connected st then [Emit ''setObject'' [JStr ident, JObj (stripped (h ! a))]]
                 else [], r)) \<and>
      (\<exists>st' r. extendObject h st ident (Some a) =
           Some (h @ [stripped (h ! a)], st',
                 if connected st then [Emit ''extendObject'' [JStr ident, JObj (stripped (h ! a))]]
                 else [], r)) \<and>
      (\<forall>h' st' es r b.
          (setObject h st ident (Some a) = Some (h', st', es, r) \<or>
           extendObject h st ident (Some a) = Some (h', st', es, r)) \<and> b < length h
          \<longrightarrow> h' ! b = h ! b))"
proof (intro conjI impI)
  show "setObject h st ident None = Some (h, st, [], Failed (JStr ''Null object is not allowed''))"
    by (simp add: setObject_def)
  show "extendObject h st ident None =
      Some (h, st, [], Failed (JStr ''Null object is not allowed''))"
    by (simp add: extendObject_def)
next
  assume a: "a < length h"
  show "\<exists>st' r. setObject h st ident (Some a) =
           Some (h @ [stripped (h ! a)], st',
                 if connected st then [Emit ''setObject'' [JStr ident, JObj (stripped (h ! a))]]
                 else [], r)"
    by (simp add: setObject_copy [OF a] write_request)
  show "\<exists>st' r. extendObject h st ident (Some a) =
           Some (h @ [stripped (h ! a)], st',
                 if connected st then [Emit ''extendObject'' [JStr ident, JObj (stripped (h ! a))]]
                 else [], r)"
    by (simp add: extendObject_copy [OF a] write_request)
  show "\<forall>h' st' es r b.
          (setObject h st ident (Some a) = Some (h', st', es, r) \<or>
           extendObject h st ident (Some a) = Some (h', st', es, r)) \<and> b < length h
          \<longrightarrow> h' ! b = h ! b"
    by (auto simp: setObject_copy [OF a] extendObject_copy [OF a] nth_append)
qed

theorem write_object_sends_stripped_copy_witness:
  "setObject caller_heap online ''x'' None =
     Some (caller_heap, online, [], Failed (JStr ''Null object is not allowed'')) \<and>
   (\<exists>st' r. setObject caller_heap online ''x'' (Some 0) =
      Some (caller_heap @
              [[(''_id'', JStr ''x''),
                (''common'', JObj [(''name'', JStr ''n''), (''ts'', JNum 5)])]],
            st',
            [Emit ''setObject'' [JStr ''x'',
               JObj [(''_id'', JStr ''x''),
                     (''common'', JObj [(''name'', JStr ''n''), (''ts'', JNum 5)])]]],
            r)) \<and>
   (\<exists>st' r. extendObject caller_heap offline ''x'' (Some 0) =
      Some (caller_heap @
              [[(''_id'', JStr ''x''),
                (''common'', JObj [(''name'', JStr ''n''), (''ts'', JNum 5)])]],
            st', [], r))"
proof -
  have a: "(0::nat) < length caller_heap" by (simp add: caller_heap_def)
  have c: "connected online" "\<not> connected offline"
    by (simp_all add: online_def offline_def new_connection_def)
  have s: "stripped (caller_heap ! 0) =
      [(''_id'', JStr ''x''), (''common'', JObj [(''name'', JStr ''n''), (''ts'', JNum 5)])]"
    by (simp add: stripped_def caller_heap_def)
  note T = write_object_sends_stripped_copy [where h = caller_heap and a = 0 and ident = "''x''"]
  from T [where st = online] a c s
  have 1: "\<exists>st' r. setObject caller_heap online ''x'' (Some 0) =
      Some (caller_heap @
              [[(''_id'', JStr ''x''),
                (''common'', JObj [(''name'', JStr ''n''), (''ts'', JNum 5)])]],
            st',
            [Emit ''setObject'' [JStr ''x'',
               JObj [(''_id'', JStr ''x''),
                     (''common'', JObj [(''name'', JStr ''n''), (''ts'', JNum 5)])]]],
            r)"
    by simp
  from T [where st = offline] a c s
  have 2: "\<exists>st' r. extendObject caller_heap offline ''x'' (Some 0) =
      Some (caller_heap @
              [[(''_id'', JStr ''x''),
                (''common'', JObj [(''name'', JStr ''n''), (''ts'', JNum 5)])]],
            st', [], r)"
    by simp
  from T [where st = online] have 3: "setObject caller_heap online ''x'' None =
     Some (caller_heap, online, [], Failed (JStr ''Null object is not allowed''))" by blast
  show ?thesis using 1 2 3 by blast
qed

end
